theory Spec2Isabelle
  imports Main "HOL-Library.Sublist"
begin

section \<open>Values, errors and the object store\<close>

text \<open>
  The module feat.py builds enumerations out of three classes (\<open>Enum\<close>, \<open>Constructor\<close>,
  \<open>IntEnum\<close>) whose instances refer to each other, also cyclically, and memoise
  cardinalities in mutable tables. Objects live in a store, a list indexed by address;
  a reference is an address. Python integers are unbounded: \<open>int\<close>.
\<close>

type_synonym ref = nat

datatype val = VInt int | VList "val list"

datatype error = ValueError | IndexError | AttributeError | TypeError
  | ZeroDivisionError | BadReference

text \<open>
  The \<open>con\<close> argument of a \<open>Constructor\<close> is any Python callable; applied to the
  selected components it returns a value or raises.
\<close>

type_synonym builder = "val list \<Rightarrow> error + val"

text \<open>
  \<open>Enum\<close> has the fields \<open>constructors\<close> and \<open>cards\<close>. \<open>Constructor.__init__\<close>
  makes three kinds of instance: with no component and with one component the instance
  carries its own \<open>card\<close> and \<open>index\<close> closures (\<open>Nullary\<close>, \<open>Unary\<close>); otherwise it
  has the fields \<open>con\<close>, \<open>enums\<close>, \<open>next\<close> and \<open>cs\<close> and uses the methods of the class.
\<close>

datatype obj =
    IntEnum
  | Enum "ref list" "int list"
  | Nullary builder
  | Unary builder "ref list"
  | Constructor builder "ref list" int "int list list"

type_synonym store = "obj list"

text \<open>
  A call returns \<open>None\<close> when it runs out of fuel, \<open>Some (Inl e)\<close> when it raises
  \<open>e\<close>, and \<open>Some (Inr (v, s))\<close> when it returns \<open>v\<close> and leaves the store \<open>s\<close>.
\<close>

type_synonym 'a result = "(error + 'a \<times> store) option"

definition bind :: "'a result \<Rightarrow> ('a \<Rightarrow> store \<Rightarrow> 'b result) \<Rightarrow> 'b result" where
  "bind m k = (case m of None \<Rightarrow> None | Some (Inl e) \<Rightarrow> Some (Inl e)
                | Some (Inr (v, s)) \<Rightarrow> k v s)"

definition ret :: "'a \<Rightarrow> store \<Rightarrow> 'a result" where
  "ret v s = Some (Inr (v, s))"

definition raise :: "error \<Rightarrow> 'a result" where
  "raise e = Some (Inl e)"

definition lift :: "error + 'a \<Rightarrow> store \<Rightarrow> 'a result" where
  "lift x s = (case x of Inl e \<Rightarrow> raise e | Inr v \<Rightarrow> ret v s)"

definition bindE :: "error + 'a \<Rightarrow> ('a \<Rightarrow> error + 'b) \<Rightarrow> error + 'b" where
  "bindE x k = (case x of Inl e \<Rightarrow> Inl e | Inr v \<Rightarrow> k v)"

text \<open>Python's \<open>xs[i]\<close>: a negative index counts from the end, out of range raises.\<close>

definition py_get :: "'a list \<Rightarrow> int \<Rightarrow> error + 'a" where
  "py_get xs i =
     (if 0 \<le> i \<and> i < int (length xs) then Inr (xs ! nat i)
      else if i < 0 \<and> - int (length xs) \<le> i then Inr (xs ! nat (int (length xs) + i))
      else Inl IndexError)"

text \<open>The position in the list that \<open>xs[i]\<close> denotes, for \<open>xs[i].append(c)\<close>.\<close>

definition py_pos :: "'a list \<Rightarrow> int \<Rightarrow> error + nat" where
  "py_pos xs i =
     (if 0 \<le> i \<and> i < int (length xs) then Inr (nat i)
      else if i < 0 \<and> - int (length xs) \<le> i then Inr (nat (int (length xs) + i))
      else Inl IndexError)"

definition load :: "store \<Rightarrow> ref \<Rightarrow> error + obj" where
  "load s r = (if r < length s then Inr (s ! r) else Inl BadReference)"

text \<open>Attribute reads: a missing attribute raises \<open>AttributeError\<close>.\<close>

fun constructors_of :: "obj \<Rightarrow> error + ref list" where
  "constructors_of (Enum cons cards) = Inr cons"
| "constructors_of _ = Inl AttributeError"

fun cards_of :: "obj \<Rightarrow> error + int list" where
  "cards_of (Enum cons cards) = Inr cards"
| "cards_of _ = Inl AttributeError"

fun enums_of :: "obj \<Rightarrow> error + ref list" where
  "enums_of (Constructor con enums nxt cs) = Inr enums"
| "enums_of _ = Inl AttributeError"

fun next_of :: "obj \<Rightarrow> error + int" where
  "next_of (Constructor con enums nxt cs) = Inr nxt"
| "next_of _ = Inl AttributeError"

fun cs_of :: "obj \<Rightarrow> error + int list list" where
  "cs_of (Constructor con enums nxt cs) = Inr cs"
| "cs_of _ = Inl AttributeError"

fun con_of :: "obj \<Rightarrow> error + builder" where
  "con_of (Constructor con enums nxt cs) = Inr con"
| "con_of _ = Inl AttributeError"

definition self_constructors :: "store \<Rightarrow> ref \<Rightarrow> error + ref list" where
  "self_constructors s r = bindE (load s r) constructors_of"

definition self_cards :: "store \<Rightarrow> ref \<Rightarrow> error + int list" where
  "self_cards s r = bindE (load s r) cards_of"

definition self_enums :: "store \<Rightarrow> ref \<Rightarrow> error + ref list" where
  "self_enums s r = bindE (load s r) enums_of"

definition self_next :: "store \<Rightarrow> ref \<Rightarrow> error + int" where
  "self_next s r = bindE (load s r) next_of"

definition self_cs :: "store \<Rightarrow> ref \<Rightarrow> error + int list list" where
  "self_cs s r = bindE (load s r) cs_of"

definition self_con :: "store \<Rightarrow> ref \<Rightarrow> error + builder" where
  "self_con s r = bindE (load s r) con_of"

text \<open>\<open>self.cs[k][j]\<close>\<close>

definition self_cs_at :: "store \<Rightarrow> ref \<Rightarrow> int \<Rightarrow> int \<Rightarrow> error + int" where
  "self_cs_at s r k j = bindE (self_cs s r) (\<lambda>cs. bindE (py_get cs k) (\<lambda>row. py_get row j))"

text \<open>Field updates: \<open>self.cards.append(c)\<close>, \<open>self.cs[k].append(c)\<close>, \<open>self.next = v\<close>.\<close>

definition cards_append :: "ref \<Rightarrow> int \<Rightarrow> store \<Rightarrow> unit result" where
  "cards_append r c s =
     (case load s r of
        Inr (Enum cons cards) \<Rightarrow> ret () (s[r := Enum cons (cards @ [c])])
      | Inr _ \<Rightarrow> raise AttributeError
      | Inl e \<Rightarrow> raise e)"

definition cs_append :: "ref \<Rightarrow> nat \<Rightarrow> int \<Rightarrow> store \<Rightarrow> unit result" where
  "cs_append r k c s =
     (case load s r of
        Inr (Constructor con enums nxt cs) \<Rightarrow>
          ret () (s[r := Constructor con enums nxt (cs[k := cs ! k @ [c]])])
      | Inr _ \<Rightarrow> raise AttributeError
      | Inl e \<Rightarrow> raise e)"

definition set_next :: "ref \<Rightarrow> int \<Rightarrow> store \<Rightarrow> unit result" where
  "set_next r v s =
     (case load s r of
        Inr (Constructor con enums nxt cs) \<Rightarrow> ret () (s[r := Constructor con enums v cs])
      | Inr _ \<Rightarrow> raise AttributeError
      | Inl e \<Rightarrow> raise e)"

section \<open>The methods\<close>

text \<open>
  \<open>x.card(n)\<close> and \<open>x.index(n, i)\<close> dispatch on the object at \<open>x\<close>. The methods call
  each other through the store, so each method body takes the callee as a parameter
  (\<open>crec\<close> for \<open>card\<close>, \<open>irec\<close> for \<open>index\<close>); the dispatchers tie the knot by
  recursion on the fuel. A \<open>while\<close> loop takes one unit of its own counter per test.
\<close>

type_synonym cardfn = "store \<Rightarrow> ref \<Rightarrow> int \<Rightarrow> int result"

type_synonym indexfn = "store \<Rightarrow> ref \<Rightarrow> int \<Rightarrow> int \<Rightarrow> val result"

subsection \<open>Enum.card\<close>

text \<open>
  The inner loop \<open>for con in self.constructors: c = c + con.card(len(self.cards)-1)\<close>;
  \<open>len(self.cards)\<close> is read again for every child.
\<close>

fun Enum_card_sum :: "cardfn \<Rightarrow> ref \<Rightarrow> ref list \<Rightarrow> int \<Rightarrow> store \<Rightarrow> int result" where
  "Enum_card_sum crec self [] c s = ret c s"
| "Enum_card_sum crec self (con # cons) c s =
     bind (lift (self_cards s self) s) (\<lambda>cards s.
     bind (crec s con (int (length cards) - 1)) (\<lambda>v s.
     Enum_card_sum crec self cons (c + v) s))"

primrec Enum_card_loop :: "nat \<Rightarrow> cardfn \<Rightarrow> ref \<Rightarrow> int \<Rightarrow> store \<Rightarrow> int result" where
  "Enum_card_loop 0 crec self n s = None"
| "Enum_card_loop (Suc k) crec self n s =
     bind (lift (self_cards s self) s) (\<lambda>cards s.
     if n \<ge> int (length cards) then
       bind (lift (self_constructors s self) s) (\<lambda>cons s.
       bind (Enum_card_sum crec self cons 0 s) (\<lambda>c s.
       bind (cards_append self c s) (\<lambda>_ s.
       Enum_card_loop k crec self n s)))
     else lift (py_get cards n) s)"

definition Enum_card :: "nat \<Rightarrow> cardfn \<Rightarrow> ref \<Rightarrow> int \<Rightarrow> store \<Rightarrow> int result" where
  "Enum_card k crec self n s =
     (if n \<le> 0 then ret 0 s else Enum_card_loop k crec self n s)"

subsection \<open>Constructor.expand and Constructor.card\<close>

text \<open>
  \<open>for i in range(self.next+1): c = c + self.cs[k+1][i]*self.enums[k].card(self.next-i)\<close>
\<close>

fun expand_sum :: "cardfn \<Rightarrow> ref \<Rightarrow> int \<Rightarrow> int list \<Rightarrow> int \<Rightarrow> store \<Rightarrow> int result" where
  "expand_sum crec self k [] c s = ret c s"
| "expand_sum crec self k (i # is) c s =
     bind (lift (self_cs_at s self (k + 1) i) s) (\<lambda>a s.
     bind (lift (bindE (self_enums s self) (\<lambda>enums. py_get enums k)) s) (\<lambda>e s.
     bind (lift (self_next s self) s) (\<lambda>nxt s.
     bind (crec s e (nxt - i)) (\<lambda>v s.
     expand_sum crec self k is (c + a * v) s))))"

text \<open>\<open>for k in range(len(self.enums)-2, -1, -1): ...; self.cs[k].append(c)\<close>\<close>

fun expand_cols :: "cardfn \<Rightarrow> ref \<Rightarrow> int list \<Rightarrow> store \<Rightarrow> unit result" where
  "expand_cols crec self [] s = ret () s"
| "expand_cols crec self (k # ks) s =
     bind (lift (self_next s self) s) (\<lambda>nxt s.
     bind (expand_sum crec self k [0..nxt] 0 s) (\<lambda>c s.
     bind (lift (bindE (self_cs s self) (\<lambda>cs. py_pos cs k)) s) (\<lambda>p s.
     bind (cs_append self p c s) (\<lambda>_ s.
     expand_cols crec self ks s))))"

primrec expand_loop :: "nat \<Rightarrow> cardfn \<Rightarrow> ref \<Rightarrow> int \<Rightarrow> store \<Rightarrow> unit result" where
  "expand_loop 0 crec self n s = None"
| "expand_loop (Suc j) crec self n s =
     bind (lift (self_next s self) s) (\<lambda>nxt s.
     if nxt \<le> n then
       bind (lift (bindE (self_cs s self) (\<lambda>cs. py_pos cs (- 1))) s) (\<lambda>p s.
       bind (lift (bindE (self_enums s self) (\<lambda>enums. py_get enums (- 1))) s) (\<lambda>e s.
       bind (lift (self_next s self) s) (\<lambda>nxt s.
       bind (crec s e nxt) (\<lambda>v s.
       bind (cs_append self p v s) (\<lambda>_ s.
       bind (lift (self_enums s self) s) (\<lambda>enums s.
       bind (expand_cols crec self (rev [0..int (length enums) - 2]) s) (\<lambda>_ s.
       bind (lift (self_next s self) s) (\<lambda>nxt s.
       bind (set_next self (nxt + 1) s) (\<lambda>_ s.
       expand_loop j crec self n s)))))))))
     else ret () s)"

definition Constructor_expand :: "nat \<Rightarrow> cardfn \<Rightarrow> ref \<Rightarrow> int \<Rightarrow> store \<Rightarrow> unit result" where
  "Constructor_expand j crec self n s =
     bind (lift (self_enums s self) s) (\<lambda>_ s. expand_loop j crec self n s)"

definition Constructor_card :: "nat \<Rightarrow> cardfn \<Rightarrow> ref \<Rightarrow> int \<Rightarrow> store \<Rightarrow> int result" where
  "Constructor_card j crec self n s =
     bind (Constructor_expand j crec self n s) (\<lambda>_ s. lift (self_cs_at s self 0 n) s)"

subsection \<open>Dispatch of card\<close>

definition card_body :: "nat \<Rightarrow> cardfn \<Rightarrow> cardfn" where
  "card_body j crec s x n =
     (case load s x of
        Inl e \<Rightarrow> raise e
      | Inr IntEnum \<Rightarrow> ret 1 s
      | Inr (Enum cons cards) \<Rightarrow> Enum_card j crec x n s
      | Inr (Nullary con) \<Rightarrow> ret (if n = 1 then 1 else 0) s
      | Inr (Unary con enums) \<Rightarrow> bind (lift (py_get enums 0) s) (\<lambda>e s. crec s e n)
      | Inr (Constructor con enums nxt cs) \<Rightarrow> Constructor_card j crec x n s)"

primrec call_card :: "nat \<Rightarrow> cardfn" where
  "call_card 0 = (\<lambda>s x n. None)"
| "call_card (Suc f) = card_body f (call_card f)"

subsection \<open>Enum.index\<close>

fun Enum_index_loop :: "cardfn \<Rightarrow> indexfn \<Rightarrow> ref list \<Rightarrow> int \<Rightarrow> int \<Rightarrow> store \<Rightarrow> val result" where
  "Enum_index_loop crec irec [] n i s = raise ValueError"
| "Enum_index_loop crec irec (con # cons) n i s =
     bind (crec s con (n - 1)) (\<lambda>c s.
     if i < c then irec s con (n - 1) i
     else Enum_index_loop crec irec cons n (i - c) s)"

definition Enum_index :: "cardfn \<Rightarrow> indexfn \<Rightarrow> ref \<Rightarrow> int \<Rightarrow> int \<Rightarrow> store \<Rightarrow> val result" where
  "Enum_index crec irec self n i s =
     bind (lift (self_constructors s self) s) (\<lambda>cons s.
     Enum_index_loop crec irec cons n i s)"

subsection \<open>Constructor.index\<close>

text \<open>
  The search \<open>while i >= c: i -= c; esize += 1; c = e.card(esize)*self.cs[k+1][n-esize]\<close>;
  it returns the final \<open>i\<close> and \<open>esize\<close>.
\<close>

primrec index_search ::
  "nat \<Rightarrow> cardfn \<Rightarrow> ref \<Rightarrow> ref \<Rightarrow> int \<Rightarrow> int \<Rightarrow> int \<Rightarrow> int \<Rightarrow> int \<Rightarrow> store \<Rightarrow> (int \<times> int) result"
where
  "index_search 0 crec self e k n i esize c s = None"
| "index_search (Suc j) crec self e k n i esize c s =
     (if i \<ge> c then
        bind (crec s e (esize + 1)) (\<lambda>a s.
        bind (lift (self_cs_at s self (k + 1) (n - (esize + 1))) s) (\<lambda>b s.
        index_search j crec self e k n (i - c) (esize + 1) (a * b) s))
      else ret (i, esize) s)"

text \<open>
  The loop over the first \<open>arity - 1\<close> components; it returns the remaining \<open>n\<close> and
  \<open>i\<close> and the components selected so far.
\<close>

fun index_args ::
  "nat \<Rightarrow> cardfn \<Rightarrow> indexfn \<Rightarrow> ref \<Rightarrow> int list \<Rightarrow> int \<Rightarrow> int \<Rightarrow> val list \<Rightarrow> store
     \<Rightarrow> (int \<times> int \<times> val list) result"
where
  "index_args j crec irec self [] n i args s = ret (n, i, args) s"
| "index_args j crec irec self (k # ks) n i args s =
     bind (lift (bindE (self_enums s self) (\<lambda>enums. py_get enums k)) s) (\<lambda>e s.
     bind (crec s e 0) (\<lambda>a s.
     bind (lift (self_cs_at s self (k + 1) (n - 0)) s) (\<lambda>b s.
     bind (index_search j crec self e k n i 0 (a * b) s) (\<lambda>(i, esize) s.
     bind (crec s e esize) (\<lambda>d s.
     if d = 0 then raise ZeroDivisionError
     else bind (irec s e esize (i mod d)) (\<lambda>v s.
          index_args j crec irec self ks (n - esize) (i div d) (args @ [v]) s))))))"

text \<open>
  The end of \<open>Constructor.index\<close>: the final component takes what is left of \<open>n\<close> and
  \<open>i\<close>, and \<open>self.con\<close> is applied to the components.
\<close>

definition index_final ::
  "indexfn \<Rightarrow> ref \<Rightarrow> int \<times> int \<times> val list \<Rightarrow> store \<Rightarrow> val result" where
  "index_final irec self = (\<lambda>(n, i, args) s.
     bind (lift (bindE (self_enums s self) (\<lambda>enums. py_get enums (- 1))) s) (\<lambda>e s.
     bind (irec s e n i) (\<lambda>v s.
     bind (lift (self_con s self) s) (\<lambda>con s.
     lift (con (args @ [v])) s))))"

definition Constructor_index ::
  "nat \<Rightarrow> cardfn \<Rightarrow> indexfn \<Rightarrow> ref \<Rightarrow> int \<Rightarrow> int \<Rightarrow> store \<Rightarrow> val result" where
  "Constructor_index j crec irec self n i s =
     bind (Constructor_expand j crec self n s) (\<lambda>_ s.
     bind (lift (self_enums s self) s) (\<lambda>enums s.
     bind (index_args j crec irec self [0..int (length enums) - 2] n i [] s)
       (index_final irec self)))"

subsection \<open>Dispatch of index\<close>

definition index_body :: "nat \<Rightarrow> cardfn \<Rightarrow> indexfn \<Rightarrow> indexfn" where
  "index_body j crec irec s x n i =
     (case load s x of
        Inl e \<Rightarrow> raise e
      | Inr IntEnum \<Rightarrow> ret (VInt n) s
      | Inr (Enum cons cards) \<Rightarrow> Enum_index crec irec x n i s
      | Inr (Nullary con) \<Rightarrow> lift (con []) s
      | Inr (Unary con enums) \<Rightarrow>
          bind (lift (py_get enums 0) s) (\<lambda>e s.
          bind (irec s e n i) (\<lambda>v s. lift (con [v]) s))
      | Inr (Constructor con enums nxt cs) \<Rightarrow> Constructor_index j crec irec x n i s)"

primrec call_index :: "nat \<Rightarrow> indexfn" where
  "call_index 0 = (\<lambda>s x n i. None)"
| "call_index (Suc f) = index_body f (call_card f) (call_index f)"

subsection \<open>ix\<close>

primrec ix_loop :: "nat \<Rightarrow> cardfn \<Rightarrow> indexfn \<Rightarrow> ref \<Rightarrow> int \<Rightarrow> int \<Rightarrow> store \<Rightarrow> val result" where
  "ix_loop 0 crec irec enum index n s = None"
| "ix_loop (Suc j) crec irec enum index n s =
     bind (crec s enum n) (\<lambda>c s.
     if index > c then
       bind (crec s enum n) (\<lambda>c s.
       ix_loop j crec irec enum (index - c) (n + 1) s)
     else irec s enum n index)"

definition ix :: "nat \<Rightarrow> store \<Rightarrow> ref \<Rightarrow> int \<Rightarrow> val result" where
  "ix f s enum index = ix_loop f (call_card f) (call_index f) enum index 0 s"

section \<open>Building enumerations\<close>

definition alloc :: "store \<Rightarrow> obj \<Rightarrow> ref \<times> store" where
  "alloc s x = (length s, s @ [x])"

definition Enum_init :: obj where
  "Enum_init = Enum [] [0]"

definition addcon :: "store \<Rightarrow> ref \<Rightarrow> ref \<Rightarrow> store" where
  "addcon s self c =
     (case s ! self of Enum cons cards \<Rightarrow> s[self := Enum (cons @ [c]) [0]] | _ \<Rightarrow> s)"

definition Constructor_init :: "builder \<Rightarrow> ref list \<Rightarrow> obj" where
  "Constructor_init con enums =
     (if length enums = 0 then Nullary con
      else if length enums = 1 then Unary con enums
      else Constructor con enums 0 (map (\<lambda>e. []) enums))"

text \<open>The \<open>else\<close> branch of \<open>Constructor.__init__\<close> alone: the general representation.\<close>

definition Constructor_general :: "builder \<Rightarrow> ref list \<Rightarrow> obj" where
  "Constructor_general con enums = Constructor con enums 0 (map (\<lambda>e. []) enums)"

text \<open>\<open>lambda: []\<close> and \<open>app\<close> (\<open>xs.append(x); return xs\<close>).\<close>

fun nil :: builder where
  "nil [] = Inr (VList [])"
| "nil _ = Inl TypeError"

fun app :: builder where
  "app [x, VList xs] = Inr (VList (xs @ [x]))"
| "app [x, VInt v] = Inl AttributeError"
| "app _ = Inl TypeError"

definition elist :: "store \<Rightarrow> ref \<Rightarrow> ref \<times> store" where
  "elist s elems =
     (let (e, s) = alloc s Enum_init;
          (c1, s) = alloc s (Constructor_init nil []);
          s = addcon s e c1;
          (c2, s) = alloc s (Constructor_init app [elems, e]);
          s = addcon s e c2
      in (e, s))"

text \<open>\<open>elist(IntEnum())\<close> from the empty store.\<close>

definition nat_lists :: "ref \<times> store" where
  "nat_lists = (let (i, s) = alloc [] IntEnum in elist s i)"

text \<open>
  The \<open>ejson\<close> of the source without its third alternative (the JSON objects, which are
  dictionaries): \<open>ejson = Enum(); ejson.addcon(IntEnum()); ejsonarray = elist(ejson);
  ejson.addcon(ejsonarray)\<close>, from the empty store.
\<close>

definition json_arrays :: "ref \<times> store" where
  "json_arrays =
     (let (e, s) = alloc [] Enum_init;
          (i, s) = alloc s IntEnum;
          s = addcon s e i;
          (l, s) = elist s e;
          s = addcon s e l
      in (e, s))"

text \<open>What a call returned or raised, forgetting the store it left.\<close>

definition outcome :: "'a result \<Rightarrow> (error + 'a) option" where
  "outcome m = map_option (map_sum id fst) m"

section \<open>Reference cardinalities, decoding and the invariant of the store\<close>

text \<open>
  The number of ways to fill the components \<open>es\<close> with values of total size \<open>n\<close>,
  from the cardinalities \<open>C\<close> of the components: the convolution that
  \<open>Constructor.expand\<close> computes row by row, row \<open>k\<close> of the matrix being the product of
  the components from \<open>k\<close> on.
\<close>

fun prodcard :: "(ref \<Rightarrow> int \<Rightarrow> int) \<Rightarrow> ref list \<Rightarrow> int \<Rightarrow> int" where
  "prodcard C [] n = 0"
| "prodcard C [e] n = C e n"
| "prodcard C (e # es) n = (\<Sum>i\<leftarrow>[0..n]. prodcard C es i * C e (n - i))"

text \<open>
  The reference cardinality: what \<open>card(n)\<close> of the object at address \<open>x\<close> is to return
  in a store of the shape \<open>G\<close>. It recurses on the size and the address and reads no memo
  table. The guards on the components of a constructor (a smaller address, a size between 0
  and \<open>n\<close>) make the recursion terminate; they hold in every well-formed store.
\<close>

function scard :: "store \<Rightarrow> ref \<Rightarrow> int \<Rightarrow> int" where
  "scard G x n =
     (if x < length G then
        (case G ! x of
           IntEnum \<Rightarrow> 1
         | Enum cons cards \<Rightarrow> if n \<le> 0 then 0 else (\<Sum>c\<leftarrow>cons. scard G c (n - 1))
         | Nullary con \<Rightarrow> if n = 1 then 1 else 0
         | Unary con enums \<Rightarrow>
             (case enums of [] \<Rightarrow> 0 | e # _ \<Rightarrow> if e < x then scard G e n else 0)
         | Constructor con enums nxt cs \<Rightarrow>
             prodcard (\<lambda>e m. if e < x \<and> 0 \<le> m \<and> m \<le> n then scard G e m else 0) enums n)
      else 0)"
  by pat_completeness auto

termination
  by (relation "measures [\<lambda>(G, x, n). nat n, \<lambda>(G, x, n). x]") auto

declare scard.simps [simp del]

text \<open>
  An object with its memo table emptied, as \<open>__init__\<close> and \<open>addcon\<close> leave it.
\<close>

fun erase :: "obj \<Rightarrow> obj" where
  "erase (Enum cons cards) = Enum cons [0]"
| "erase (Constructor con enums nxt cs) = Constructor con enums 0 (map (\<lambda>e. []) enums)"
| "erase ob = ob"

text \<open>
  Well-formed stores: the children of an \<open>Enum\<close> are addresses of the store, a constructor
  has its components at smaller addresses than its own. A chain of references that returns to
  its start then passes through an \<open>Enum\<close>.
\<close>

fun wf_obj :: "nat \<Rightarrow> ref \<Rightarrow> obj \<Rightarrow> bool" where
  "wf_obj N x (Enum cons cards) = (\<forall>c\<in>set cons. c < N)"
| "wf_obj N x (Unary con enums) = (length enums = 1 \<and> (\<forall>e\<in>set enums. e < x))"
| "wf_obj N x (Constructor con enums nxt cs) = (enums \<noteq> [] \<and> (\<forall>e\<in>set enums. e < x))"
| "wf_obj N x _ = True"

definition wf_store :: "store \<Rightarrow> bool" where
  "wf_store s = (\<forall>x<length s. wf_obj (length s) x (s ! x))"

text \<open>
  The memo table of an object holds reference cardinalities: entry \<open>m > 0\<close> of
  \<open>cards\<close> is the cardinality of the \<open>Enum\<close> at size \<open>m\<close>; entry \<open>m\<close> of row \<open>k\<close> of
  \<open>cs\<close> is the cardinality of the product of the components from \<open>k\<close> on, and every row
  has at least \<open>next\<close> entries.
\<close>

fun good_obj :: "store \<Rightarrow> ref \<Rightarrow> obj \<Rightarrow> bool" where
  "good_obj G x (Enum cons cards) =
     (cards \<noteq> [] \<and> (\<forall>m. 0 < m \<and> m < length cards \<longrightarrow> cards ! m = scard G x (int m)))"
| "good_obj G x (Constructor con enums nxt cs) =
     (length cs = length enums \<and> 0 \<le> nxt \<and>
      (\<forall>k<length enums. nxt \<le> int (length (cs ! k)) \<and>
         (\<forall>m<length (cs ! k). cs ! k ! m = prodcard (scard G) (drop k enums) (int m))))"
| "good_obj G x _ = True"

text \<open>
  Between two iterations of \<open>expand\<close> every row of the matrix has exactly \<open>next\<close> entries;
  inside an iteration some rows have one more.
\<close>

fun tidy :: "obj \<Rightarrow> bool" where
  "tidy (Constructor con enums nxt cs) = (\<forall>row\<in>set cs. int (length row) = nxt)"
| "tidy _ = True"

text \<open>
  The first size that is not in the memo table of an object, and whether a size is in it.
\<close>

fun frontier :: "obj \<Rightarrow> int" where
  "frontier (Enum cons cards) = int (length cards)"
| "frontier (Constructor con enums nxt cs) = nxt"
| "frontier _ = 0"

fun cached :: "obj \<Rightarrow> int \<Rightarrow> bool" where
  "cached (Enum cons cards) n = (n \<le> 0 \<or> n < int (length cards))"
| "cached (Constructor con enums nxt cs) n = (n < nxt)"
| "cached _ n = True"

text \<open>
  An object after some calls: the same object with longer tables.
\<close>

fun obj_le :: "obj \<Rightarrow> obj \<Rightarrow> bool" where
  "obj_le (Enum cons cards) ob = (\<exists>cards'. ob = Enum cons cards' \<and> prefix cards cards')"
| "obj_le (Constructor con enums nxt cs) ob =
     (\<exists>nxt' cs'. ob = Constructor con enums nxt' cs' \<and> nxt \<le> nxt' \<and> length cs' = length cs \<and>
        (\<forall>k<length cs. prefix (cs ! k) (cs' ! k)))"
| "obj_le ob ob' = (ob' = ob)"

text \<open>
  The order of the calls: a call \<open>(m, e)\<close> made by the call \<open>(n, x)\<close> has a smaller size, or
  the same size and a smaller address.
\<close>

definition lexlt :: "int \<Rightarrow> ref \<Rightarrow> int \<Rightarrow> ref \<Rightarrow> bool" where
  "lexlt m e n x = (m < n \<or> (m = n \<and> e < x))"

definition lexle :: "int \<Rightarrow> ref \<Rightarrow> int \<Rightarrow> ref \<Rightarrow> bool" where
  "lexle m e n x = (m < n \<or> (m = n \<and> e \<le> x))"

text \<open>
  What a call at size \<open>n\<close> on the object \<open>x\<close> does to the store: tables grow, an object
  that was tidy stays tidy (the objects of \<open>X\<close>, which are inside an iteration of
  \<open>expand\<close>, apart), and an object whose table is beyond the call is untouched.
\<close>

definition rel :: "ref set \<Rightarrow> int \<Rightarrow> ref \<Rightarrow> store \<Rightarrow> store \<Rightarrow> bool" where
  "rel X n x s s' \<longleftrightarrow>
     length s' = length s \<and>
     (\<forall>q<length s. obj_le (s ! q) (s' ! q) \<and>
        (q \<notin> X \<longrightarrow> tidy (s ! q) \<longrightarrow> tidy (s' ! q)) \<and>
        (lexlt n x (frontier (s ! q)) q \<longrightarrow> s' ! q = s ! q))"

text \<open>
  The stores that a call at size \<open>n\<close> on the object \<open>x\<close> may find: of the shape \<open>G\<close>, with
  right tables, and an object caught inside an iteration of \<open>expand\<close> has its table beyond
  the call, so that the call does not touch it.
\<close>

definition st :: "store \<Rightarrow> ref set \<Rightarrow> int \<Rightarrow> ref \<Rightarrow> store \<Rightarrow> bool" where
  "st G X n x s \<longleftrightarrow>
     map erase s = map erase G \<and>
     (\<forall>q<length s. good_obj G q (s ! q) \<and>
        (q \<notin> X \<longrightarrow> \<not> tidy (s ! q) \<longrightarrow> lexlt n x (frontier (s ! q)) q))"

text \<open>
  A store of the shape \<open>G\<close> with right tables.
\<close>

definition goodS :: "store \<Rightarrow> store \<Rightarrow> bool" where
  "goodS G s \<longleftrightarrow> map erase s = map erase G \<and> (\<forall>q<length s. good_obj G q (s ! q))"

text \<open>
  What the method running at size \<open>n\<close> on the object \<open>x\<close> expects of the \<open>card\<close> it
  calls: for every smaller call, the reference cardinality, and a store changed as \<open>rel\<close>
  allows.
\<close>

definition cspec :: "store \<Rightarrow> cardfn \<Rightarrow> int \<Rightarrow> ref \<Rightarrow> bool" where
  "cspec G crec n x \<longleftrightarrow>
     (\<forall>s e m. st G {} m e s \<longrightarrow> 0 \<le> m \<longrightarrow> e < length G \<longrightarrow> lexlt m e n x \<longrightarrow>
        (\<exists>s'. crec s e m = ret (scard G e m) s' \<and> rel {} m e s s' \<and> goodS G s'))"

text \<open>
  \<open>card(n)\<close> on the object \<open>x\<close> with \<open>f\<close> nested calls allowed: it returns the reference
  cardinality and leaves the size \<open>n\<close> in the table.
\<close>

definition cok :: "store \<Rightarrow> nat \<Rightarrow> int \<Rightarrow> ref \<Rightarrow> bool" where
  "cok G f n x \<longleftrightarrow>
     (\<forall>s. st G {} n x s \<longrightarrow>
        (\<exists>s'. call_card f s x n = ret (scard G x n) s' \<and> rel {} n x s s' \<and> goodS G s' \<and>
           cached (s' ! x) n))"

text \<open>
  The stores between two calls of the user: of the shape \<open>G\<close>, with right tables, every
  object tidy. A store is consistent when it is so for its own shape, and well-formed; every
  store just built is. \<open>grows\<close>: the same objects with longer tables.
\<close>

definition reach :: "store \<Rightarrow> store \<Rightarrow> bool" where
  "reach G s \<longleftrightarrow> goodS G s \<and> (\<forall>q<length s. tidy (s ! q))"

definition consistent :: "store \<Rightarrow> bool" where
  "consistent s \<longleftrightarrow> wf_store s \<and> (\<forall>q<length s. good_obj s q (s ! q) \<and> tidy (s ! q))"

definition grows :: "store \<Rightarrow> store \<Rightarrow> bool" where
  "grows s s' \<longleftrightarrow> length s' = length s \<and> (\<forall>q<length s. obj_le (s ! q) (s' ! q))"

text \<open>
  The block an index falls in: the first element of the list whose block holds the
  index, after the blocks before it are taken off. \<open>Enum.index\<close> looks for the child so,
  \<open>Constructor.index\<close> for the size of a component.
\<close>

fun pick :: "('a \<Rightarrow> int) \<Rightarrow> 'a list \<Rightarrow> int \<Rightarrow> ('a \<times> int) option" where
  "pick B [] i = None"
| "pick B (c # cs) i = (if i < B c then Some (c, i) else pick B cs (i - B c))"

text \<open>
  The decoding of a product: \<open>C\<close> gives the cardinalities and \<open>D\<close> the values of the
  components.
\<close>

fun proddecode ::
  "(ref \<Rightarrow> int \<Rightarrow> int) \<Rightarrow> (ref \<Rightarrow> int \<Rightarrow> int \<Rightarrow> error + val) \<Rightarrow> ref list \<Rightarrow> int \<Rightarrow> int
     \<Rightarrow> error + val list" where
  "proddecode C D [] n i = Inl IndexError"
| "proddecode C D [e] n i = bindE (D e n i) (\<lambda>v. Inr [v])"
| "proddecode C D (e # es) n i =
     (case pick (\<lambda>sz. C e sz * prodcard C es (n - sz)) [0..n] i of
        None \<Rightarrow> Inl ValueError
      | Some (sz, j) \<Rightarrow>
          bindE (D e sz (j mod C e sz)) (\<lambda>v.
          bindE (proddecode C D es (n - sz) (j div C e sz)) (\<lambda>vs. Inr (v # vs))))"

text \<open>
  The reference decoding: the value that \<open>index(n, i)\<close> of the object at address \<open>x\<close> is
  to return, or the error it is to raise, in a store of the shape \<open>G\<close>.
\<close>

function sindex :: "store \<Rightarrow> ref \<Rightarrow> int \<Rightarrow> int \<Rightarrow> error + val" where
  "sindex G x n i =
     (if x < length G then
        (case G ! x of
           IntEnum \<Rightarrow> Inr (VInt n)
         | Enum cons cards \<Rightarrow>
             if n \<le> 0 then Inl ValueError
             else (case pick (\<lambda>c. scard G c (n - 1)) cons i of
                     None \<Rightarrow> Inl ValueError
                   | Some (c, j) \<Rightarrow> sindex G c (n - 1) j)
         | Nullary con \<Rightarrow> con []
         | Unary con enums \<Rightarrow>
             (case enums of
                [] \<Rightarrow> Inl IndexError
              | e # _ \<Rightarrow> if e < x then bindE (sindex G e n i) (\<lambda>v. con [v]) else Inl BadReference)
         | Constructor con enums nxt cs \<Rightarrow>
             bindE (proddecode (scard G)
                      (\<lambda>e m j. if e < x \<and> 0 \<le> m \<and> m \<le> n then sindex G e m j else Inl BadReference)
                      enums n i) con)
      else Inl BadReference)"
  by pat_completeness auto

termination
  by (relation "measures [\<lambda>(G, x, n, i). nat n, \<lambda>(G, x, n, i). x]") auto

declare sindex.simps [simp del]

text \<open>
  A call of \<open>index\<close> from the store \<open>s\<close> agrees with the reference decoding: it raises the
  same error, or it returns the same value and a store with longer tables.
\<close>

definition iresult :: "store \<Rightarrow> val result \<Rightarrow> store \<Rightarrow> error + val \<Rightarrow> bool" where
  "iresult G r s sem =
     (case sem of
        Inl err \<Rightarrow> r = raise err
      | Inr v \<Rightarrow> (\<exists>s'. r = ret v s' \<and> reach G s' \<and> grows s s'))"

text \<open>
  What the method running at size \<open>n\<close> on the object \<open>x\<close> expects of the \<open>index\<close> it
  calls, for an index below the cardinality.
\<close>

definition ispec :: "store \<Rightarrow> indexfn \<Rightarrow> int \<Rightarrow> ref \<Rightarrow> bool" where
  "ispec G irec n x \<longleftrightarrow>
     (\<forall>s e m j. reach G s \<longrightarrow> 0 \<le> m \<longrightarrow> e < length G \<longrightarrow> lexlt m e n x \<longrightarrow> 0 \<le> j \<longrightarrow>
        j < scard G e m \<longrightarrow> iresult G (irec s e m j) s (sindex G e m j))"

text \<open>
  The constructor \<open>x\<close> after \<open>self.expand(n)\<close>.
\<close>

definition expanded :: "store \<Rightarrow> ref \<Rightarrow> builder \<Rightarrow> ref list \<Rightarrow> int \<Rightarrow> bool" where
  "expanded s x con enums n \<longleftrightarrow> (\<exists>t cs. s ! x = Constructor con enums t cs \<and> n < t)"

text \<open>
  \<open>index(n, i)\<close> on the object \<open>x\<close> with \<open>f\<close> nested calls allowed agrees with the
  reference decoding for every index below the cardinality.
\<close>

definition iok :: "store \<Rightarrow> nat \<Rightarrow> int \<Rightarrow> ref \<Rightarrow> bool" where
  "iok G f n x \<longleftrightarrow>
     (\<forall>s i. reach G s \<longrightarrow> 0 \<le> i \<longrightarrow> i < scard G x n \<longrightarrow>
        iresult G (call_index f s x n i) s (sindex G x n i))"

text \<open>
  A typing of a store gives every object a set of values, \<open>ty x\<close>, that holds what the
  object enumerates: \<open>IntEnum\<close> the integers from 0 on; a constructor what its function
  returns on components taken from the sets of its component enumerations, where the function
  must return and be injective; an \<open>Enum\<close> the values of its alternatives, which are
  distinct objects with sets that do not meet. The sets of two alternatives must not meet at
  any two sizes, and not only at the same size: a product decodes a component at one size
  for one index and at another size for another index.
\<close>

definition args_of :: "(ref \<Rightarrow> val set) \<Rightarrow> ref list \<Rightarrow> val list \<Rightarrow> bool" where
  "args_of ty es as = list_all2 (\<lambda>e a. a \<in> ty e) es as"

definition builds :: "(ref \<Rightarrow> val set) \<Rightarrow> builder \<Rightarrow> ref list \<Rightarrow> val set \<Rightarrow> bool" where
  "builds ty con es T \<longleftrightarrow>
     (\<forall>as. args_of ty es as \<longrightarrow> (\<exists>v. con as = Inr v \<and> v \<in> T)) \<and>
     (\<forall>as bs. args_of ty es as \<and> args_of ty es bs \<and> con as = con bs \<longrightarrow> as = bs)"

fun typed_obj :: "(ref \<Rightarrow> val set) \<Rightarrow> ref \<Rightarrow> obj \<Rightarrow> bool" where
  "typed_obj ty x IntEnum = (\<forall>n. 0 \<le> n \<longrightarrow> VInt n \<in> ty x)"
| "typed_obj ty x (Enum cons cards) =
     (distinct cons \<and> (\<forall>c\<in>set cons. ty c \<subseteq> ty x) \<and>
      (\<forall>c\<in>set cons. \<forall>c'\<in>set cons. c \<noteq> c' \<longrightarrow> ty c \<inter> ty c' = {}))"
| "typed_obj ty x (Nullary con) = builds ty con [] (ty x)"
| "typed_obj ty x (Unary con enums) = builds ty con enums (ty x)"
| "typed_obj ty x (Constructor con enums nxt cs) = builds ty con enums (ty x)"

definition typed :: "(ref \<Rightarrow> val set) \<Rightarrow> store \<Rightarrow> bool" where
  "typed ty s \<longleftrightarrow> (\<forall>x<length s. typed_obj ty x (s ! x))"

text \<open>The sets of values of the five objects of \<open>json_arrays\<close>.\<close>

definition json_ty :: "ref \<Rightarrow> val set" where
  "json_ty x = [UNIV, range VInt, range VList, {VList []}, {v. \<exists>xs. xs \<noteq> [] \<and> v = VList xs}] ! x"

section \<open>Evaluation rules\<close>

lemmas monad_simps = bind_def ret_def raise_def lift_def bindE_def load_def

lemma card_Enum_nonpos:
  "load s x = Inr (Enum cons cards) \<Longrightarrow> n \<le> 0 \<Longrightarrow> call_card (Suc f) s x n = Some (Inr (0, s))"
  by (simp add: card_body_def Enum_card_def ret_def)

lemma card_Nullary:
  "load s x = Inr (Nullary con) \<Longrightarrow>
   call_card (Suc f) s x n = Some (Inr (if n = 1 then 1 else 0, s))"
  by (simp add: card_body_def ret_def)

lemma card_IntEnum:
  "load s x = Inr IntEnum \<Longrightarrow> call_card (Suc f) s x n = Some (Inr (1, s))"
  by (simp add: card_body_def ret_def)

lemma card_Unary:
  "load s x = Inr (Unary con [e]) \<Longrightarrow> call_card (Suc f) s x n = call_card f s e n"
  by (simp add: card_body_def monad_simps py_get_def)

lemma card_Constructor_below_next:
  "load s x = Inr (Constructor con enums nxt cs) \<Longrightarrow> n < nxt \<Longrightarrow>
   call_card (Suc (Suc f)) s x n = lift (bindE (py_get cs 0) (\<lambda>row. py_get row n)) s"
  by (simp add: card_body_def Constructor_card_def Constructor_expand_def self_enums_def
      self_next_def self_cs_at_def self_cs_def monad_simps split: if_splits)

section \<open>Claims settled by evaluation\<close>

text \<open>
  C5. For \<open>elist(IntEnum())\<close> the claim says \<open>card(1) = 1\<close> and \<open>index(1, 0) = []\<close>.
  The code charges the empty list twice, once in the nullary constructor
  (\<open>1 if n==1 else 0\<close>) and once in the owning \<open>Enum\<close>: \<open>card(1)\<close> is 0,
  \<open>index(1, 0)\<close> raises \<open>ValueError\<close>, and the empty list is the one value of size 2.
\<close>

theorem elist_empty_list_size:
  "outcome (call_card 9 (snd nat_lists) (fst nat_lists) 1) = Some (Inr 0) \<and>
   outcome (call_index 9 (snd nat_lists) (fst nat_lists) 1 0) = Some (Inl ValueError) \<and>
   outcome (call_card 9 (snd nat_lists) (fst nat_lists) 2) = Some (Inr 1) \<and>
   outcome (call_index 9 (snd nat_lists) (fst nat_lists) 2 0) = Some (Inr (VList []))"
  by code_simp

text \<open>
  C6. For the enumerator \<open>IntEnum()\<close> and the flat index 1 the claim gives
  \<open>index(1, 0)\<close>, the value 1 (size 0 holds one value, so flat index 1 is the first
  value of size 1). The loop of \<open>ix\<close> tests \<open>index > enum.card(n)\<close>, stops at size 0
  and returns \<open>index(0, 1)\<close>, the value 0.
\<close>

theorem ix_off_by_one:
  "ix 2 [IntEnum] 0 1 = Some (Inr (VInt 0, [IntEnum])) \<and>
   call_card 1 [IntEnum] 0 0 = Some (Inr (1, [IntEnum])) \<and>
   call_index 1 [IntEnum] 0 1 0 = Some (Inr (VInt 1, [IntEnum]))"
  by (simp add: ix_def index_body_def card_body_def monad_simps numeral_2_eq_2)

text \<open>
  C7, as stated: \<open>card(n)\<close> is 0 for every enumerator and every \<open>n < 0\<close>. It fails for
  \<open>IntEnum\<close>, whose \<open>card\<close> returns 1 whatever the size.
\<close>

theorem card_negative_IntEnum_counterexample:
  "call_card 1 [IntEnum] 0 (- 1) = Some (Inr (1, [IntEnum]))"
  by (simp add: card_body_def monad_simps)

text \<open>
  C7, amended: for every \<open>Enum\<close> and every \<open>Constructor\<close> without components, and every
  \<open>n < 0\<close>, \<open>card(n)\<close> returns 0, does not fail and leaves the store as it was;
  \<open>IntEnum.card(n)\<close> returns 1.
\<close>

theorem card_negative_size:
  assumes "n < 0" and "load s x = Inr ob"
    and "ob = IntEnum \<or> (\<exists>cons cards. ob = Enum cons cards) \<or> (\<exists>con. ob = Nullary con)"
  shows "call_card (Suc f) s x n = Some (Inr (case ob of IntEnum \<Rightarrow> 1 | _ \<Rightarrow> 0, s))"
  using assms
  by (auto simp del: call_card.simps simp: card_Enum_nonpos card_Nullary card_IntEnum)

theorem card_negative_size_witness:
  "call_card 1 [Enum [1] [0], Nullary nil, IntEnum] 0 (- 3) =
     Some (Inr (0, [Enum [1] [0], Nullary nil, IntEnum])) \<and>
   call_card 1 [Enum [1] [0], Nullary nil, IntEnum] 1 (- 3) =
     Some (Inr (0, [Enum [1] [0], Nullary nil, IntEnum])) \<and>
   call_card 1 [Enum [1] [0], Nullary nil, IntEnum] 2 (- 3) =
     Some (Inr (1, [Enum [1] [0], Nullary nil, IntEnum]))"
  using card_negative_size [of "- 3" "[Enum [1] [0], Nullary nil, IntEnum]" 0 "Enum [1] [0]" 0]
    card_negative_size [of "- 3" "[Enum [1] [0], Nullary nil, IntEnum]" 1 "Nullary nil" 0]
    card_negative_size [of "- 3" "[Enum [1] [0], Nullary nil, IntEnum]" 2 "IntEnum" 0]
  by (simp del: call_card.simps add: load_def)

section \<open>Correctness of card from a store with right tables\<close>

lemma prodcard_cong:
  "0 \<le> n \<Longrightarrow> (\<And>e m. e \<in> set es \<Longrightarrow> 0 \<le> m \<Longrightarrow> m \<le> n \<Longrightarrow> C e m = C' e m) \<Longrightarrow>
   prodcard C es n = prodcard C' es n"
proof (induction C es n rule: prodcard.induct)
  case (3 C e e' es n)
  have h: "prodcard C (e' # es) i * C e (n - i) = prodcard C' (e' # es) i * C' e (n - i)"
    if i: "i \<in> set [0..n]" for i
  proof -
    have "prodcard C (e' # es) i = prodcard C' (e' # es) i"
      using i "3.prems" by (intro "3.IH") auto
    moreover have "C e (n - i) = C' e (n - i)" using i "3.prems" by auto
    ultimately show ?thesis by simp
  qed
  have "map (\<lambda>i. prodcard C (e' # es) i * C e (n - i)) [0..n] =
        map (\<lambda>i. prodcard C' (e' # es) i * C' e (n - i)) [0..n]"
    by (rule map_cong [OF refl]) (rule h)
  then show ?case by (simp only: prodcard.simps)
qed auto

lemma wf_obj_erase [simp]: "wf_obj N x (erase ob) = wf_obj N x ob"
  by (cases ob) auto

lemma wf_store_erase: "wf_store (map erase s) = wf_store s"
  by (simp add: wf_store_def)

lemma scard_erase: "scard (map erase G) x n = scard G x n"
proof (induction G x n rule: scard.induct)
  case (1 G x n)
  show ?case
  proof (cases "x < length G")
    case False
    then show ?thesis by (simp add: scard.simps)
  next
    case x: True
    show ?thesis
    proof (cases "G ! x")
      case IntEnum
      then show ?thesis using x by (simp add: scard.simps)
    next
      case (Enum cons cards)
      have "(\<Sum>c\<leftarrow>cons. scard (map erase G) c (n - 1)) = (\<Sum>c\<leftarrow>cons. scard G c (n - 1))"
        if "\<not> n \<le> 0"
        by (rule arg_cong [where f = sum_list], rule map_cong [OF refl])
           (rule "1.IH"(1) [OF x Enum that])
      then show ?thesis using x Enum
        by (simp add: scard.simps [of G x n] scard.simps [of "map erase G" x n])
    next
      case (Nullary con)
      then show ?thesis using x by (simp add: scard.simps)
    next
      case (Unary con enums)
      then show ?thesis using x "1.IH"(2) [OF x Unary]
        by (auto simp: scard.simps [of G x n] scard.simps [of "map erase G" x n] split: list.splits)
    next
      case (Constructor con enums nxt cs)
      have "(\<lambda>e m. if e < x \<and> 0 \<le> m \<and> m \<le> n then scard (map erase G) e m else 0) =
            (\<lambda>e m. if e < x \<and> 0 \<le> m \<and> m \<le> n then scard G e m else 0)"
        using "1.IH"(3) [OF x Constructor] by (intro ext) auto
      then show ?thesis using x Constructor
        by (simp add: scard.simps [of G x n] scard.simps [of "map erase G" x n])
    qed
  qed
qed

lemma scard_shape: "map erase s = map erase G \<Longrightarrow> scard s x n = scard G x n"
  by (metis scard_erase)

lemma scard_IntEnum: "x < length G \<Longrightarrow> G ! x = IntEnum \<Longrightarrow> scard G x n = 1"
  by (simp add: scard.simps)

lemma scard_Enum:
  "x < length G \<Longrightarrow> G ! x = Enum cons cards \<Longrightarrow>
   scard G x n = (if n \<le> 0 then 0 else (\<Sum>c\<leftarrow>cons. scard G c (n - 1)))"
  by (simp add: scard.simps [of G x n])

lemma scard_Nullary:
  "x < length G \<Longrightarrow> G ! x = Nullary con \<Longrightarrow> scard G x n = (if n = 1 then 1 else 0)"
  by (simp add: scard.simps)

lemma scard_Unary:
  "x < length G \<Longrightarrow> G ! x = Unary con [e] \<Longrightarrow> e < x \<Longrightarrow> scard G x n = scard G e n"
  by (simp add: scard.simps [of G x n])

lemma scard_Constructor:
  assumes "x < length G" "G ! x = Constructor con enums nxt cs" "\<forall>e\<in>set enums. e < x" "0 \<le> n"
  shows "scard G x n = prodcard (scard G) enums n"
proof -
  have "prodcard (\<lambda>e m. if e < x \<and> 0 \<le> m \<and> m \<le> n then scard G e m else 0) enums n =
        prodcard (scard G) enums n"
    using assms by (intro prodcard_cong) auto
  then show ?thesis using assms by (simp add: scard.simps [of G x n])
qed

lemma prodcard_nonneg:
  "(\<And>e m. e \<in> set es \<Longrightarrow> 0 \<le> C e m) \<Longrightarrow> 0 \<le> prodcard C es n"
proof (induction C es n rule: prodcard.induct)
  case (3 C e e' es n)
  have "0 \<le> prodcard C (e' # es) i * C e (n - i)" if "i \<in> set [0..n]" for i
  proof (rule mult_nonneg_nonneg)
    show "0 \<le> prodcard C (e' # es) i"
      using that "3.prems" by (intro "3.IH") auto
    show "0 \<le> C e (n - i)" using "3.prems" by simp
  qed
  then show ?case by (auto intro!: sum_list_nonneg)
qed auto

lemma scard_nonneg: "0 \<le> scard G x n"
proof (induction G x n rule: scard.induct)
  case (1 G x n)
  show ?case
  proof (cases "x < length G")
    case False
    then show ?thesis by (simp add: scard.simps)
  next
    case x: True
    show ?thesis
    proof (cases "G ! x")
      case (Enum cons cards)
      show ?thesis using x Enum "1.IH"(1) [OF x Enum]
        by (auto simp: scard.simps [of G x n] intro!: sum_list_nonneg)
    next
      case (Unary con enums)
      then show ?thesis using x "1.IH"(2) [OF x Unary]
        by (auto simp: scard.simps [of G x n] split: list.splits)
    next
      case (Constructor con enums nxt cs)
      have "0 \<le> prodcard (\<lambda>e m. if e < x \<and> 0 \<le> m \<and> m \<le> n then scard G e m else 0) enums n"
        using "1.IH"(3) [OF x Constructor] by (intro prodcard_nonneg) auto
      then show ?thesis using x Constructor by (simp add: scard.simps [of G x n])
    qed (use x in \<open>simp_all add: scard.simps\<close>)
  qed
qed

lemma lexle_lexlt_trans: "lexle m e n x \<Longrightarrow> lexlt n x k q \<Longrightarrow> lexlt m e k q"
  by (auto simp: lexle_def lexlt_def)

lemma lexle_trans: "lexle m e n x \<Longrightarrow> lexle n x k q \<Longrightarrow> lexle m e k q"
  by (auto simp: lexle_def)

lemma lexlt_imp_lexle: "lexlt m e n x \<Longrightarrow> lexle m e n x"
  by (auto simp: lexle_def lexlt_def)

lemma lexle_refl [simp]: "lexle n x n x"
  by (simp add: lexle_def)

lemma lexlt_irrefl [simp]: "\<not> lexlt n x n x"
  by (simp add: lexlt_def)

lemma obj_le_refl [simp]: "obj_le ob ob"
  by (cases ob) auto

lemma obj_le_trans: "obj_le a b \<Longrightarrow> obj_le b c \<Longrightarrow> obj_le a c"
  by (cases a) (auto, (meson prefix_order.trans)+)

lemma obj_le_erase: "obj_le a b \<Longrightarrow> erase b = erase a"
  by (cases a) auto

lemma rel_refl [simp]: "rel X n x s s"
  by (simp add: rel_def)

lemma rel_trans:
  assumes "rel X n x s t" "rel Y m e t u" "lexle m e n x" "Y \<subseteq> X"
  shows "rel X n x s u"
  unfolding rel_def
proof (intro conjI allI impI)
  show "length u = length s" using assms by (simp add: rel_def)
next
  fix q assume q: "q < length s"
  then have q': "q < length t" using assms by (simp add: rel_def)
  show "obj_le (s ! q) (u ! q)"
    using assms q q' by (auto simp: rel_def intro: obj_le_trans)
  show "tidy (u ! q)" if "q \<notin> X" "tidy (s ! q)"
    using assms q q' that by (auto simp: rel_def)
  show "u ! q = s ! q" if l: "lexlt n x (frontier (s ! q)) q"
  proof -
    have 1: "t ! q = s ! q" using assms(1) q l by (simp add: rel_def)
    have "lexlt m e (frontier (t ! q)) q"
      using lexle_lexlt_trans [OF assms(3) l] 1 by simp
    then show ?thesis using assms(2) q' 1 by (simp add: rel_def)
  qed
qed

lemma rel_update:
  assumes "rel X n x s t" "x < length t" "obj_le (t ! x) ob"
    and "x \<in> X \<or> (tidy (t ! x) \<longrightarrow> tidy ob)"
    and "\<not> lexlt n x (frontier (s ! x)) x"
  shows "rel X n x s (t[x := ob])"
  unfolding rel_def
proof (intro conjI allI impI)
  show "length (t[x := ob]) = length s" using assms by (simp add: rel_def)
next
  fix q assume q: "q < length s"
  then have q': "q < length t" using assms by (simp add: rel_def)
  show "obj_le (s ! q) (t[x := ob] ! q)"
    using assms q q' by (cases "q = x") (auto simp: rel_def intro: obj_le_trans)
  show "tidy (t[x := ob] ! q)" if "q \<notin> X" "tidy (s ! q)"
    using assms q q' that by (cases "q = x") (auto simp: rel_def)
  show "t[x := ob] ! q = s ! q" if l: "lexlt n x (frontier (s ! q)) q"
    using assms q q' that by (cases "q = x") (auto simp: rel_def)
qed

lemma rel_weaken: "rel X n x s t \<Longrightarrow> X \<subseteq> Y \<Longrightarrow> rel Y n x s t"
  by (auto simp: rel_def)

lemma rel_tidy: "rel {x} n x s t \<Longrightarrow> x < length t \<Longrightarrow> tidy (t ! x) \<Longrightarrow> rel {} n x s t"
  by (auto simp: rel_def)

lemma rel_length: "rel X n x s t \<Longrightarrow> length t = length s"
  by (simp add: rel_def)

lemma rel_frame: "rel X n x s t \<Longrightarrow> q < length s \<Longrightarrow> lexlt n x (frontier (s ! q)) q \<Longrightarrow> t ! q = s ! q"
  by (simp add: rel_def)

lemma st_goodS: "st G X n x s \<Longrightarrow> goodS G s"
  by (simp add: st_def goodS_def)

lemma st_length: "st G X n x s \<Longrightarrow> length s = length G"
  by (metis st_def length_map)

lemma st_erase: "st G X n x s \<Longrightarrow> q < length G \<Longrightarrow> erase (s ! q) = erase (G ! q)"
  by (metis st_def length_map nth_map)

lemma st_good: "st G X n x s \<Longrightarrow> q < length G \<Longrightarrow> good_obj G q (s ! q)"
  by (metis st_def length_map)

text \<open>The state before a callee at a smaller bound.\<close>

lemma st_call:
  assumes "st G X n x s" "lexle m e n x"
    and "\<And>q. q \<in> X \<Longrightarrow> q < length s \<Longrightarrow> \<not> tidy (s ! q) \<Longrightarrow> lexlt m e (frontier (s ! q)) q"
  shows "st G {} m e s"
  using assms unfolding st_def
  by (metis lexle_lexlt_trans)

text \<open>The state after the callee returned.\<close>

lemma st_after:
  assumes "st G X n x s" "rel {} m e s s'" "goodS G s'" "lexle m e n x"
  shows "st G X n x s'"
  unfolding st_def
proof (intro conjI allI impI)
  show "map erase s' = map erase G" using assms by (simp add: goodS_def)
next
  fix q assume q: "q < length s'"
  then have qs: "q < length s" using assms by (simp add: rel_def)
  show "good_obj G q (s' ! q)" using assms q by (simp add: goodS_def)
  show "lexlt n x (frontier (s' ! q)) q" if "q \<notin> X" "\<not> tidy (s' ! q)"
  proof -
    have nt: "\<not> tidy (s ! q)" using assms(2) qs that by (auto simp: rel_def)
    then have l: "lexlt n x (frontier (s ! q)) q" using assms(1) qs that by (simp add: st_def)
    then have "lexlt m e (frontier (s ! q)) q" using assms(4) lexle_lexlt_trans by blast
    then have "s' ! q = s ! q" using assms(2) qs by (simp add: rel_def)
    then show ?thesis using l by simp
  qed
qed

lemma st_update:
  assumes "st G X n x s" "x < length s" "erase ob = erase (s ! x)" "good_obj G x ob"
    and "x \<in> X \<or> tidy ob \<or> lexlt n x (frontier ob) x"
  shows "st G X n x (s[x := ob])"
  unfolding st_def
proof (intro conjI allI impI)
  show "map erase (s[x := ob]) = map erase G"
    using assms by (simp add: st_def map_update) (metis list_update_id nth_map length_map)
next
  fix q assume q: "q < length (s[x := ob])"
  show "good_obj G q (s[x := ob] ! q)"
    using assms q by (cases "q = x") (auto simp: st_def)
  show "lexlt n x (frontier (s[x := ob] ! q)) q" if "q \<notin> X" "\<not> tidy (s[x := ob] ! q)"
    using assms q that by (cases "q = x") (auto simp: st_def)
qed

lemma bind_simps [simp]:
  "bind None k = None"
  "bind (Some (Inl e)) k = Some (Inl e)"
  "bind (Some (Inr (v, s))) k = k v s"
  "bind (ret v s) k = k v s"
  "bind (raise e) k = raise e"
  by (simp_all add: bind_def ret_def raise_def)

lemma ret_eq [simp]:
  "ret v s = ret v' s' \<longleftrightarrow> v = v' \<and> s = s'"
  "ret v s \<noteq> None" "ret v s \<noteq> raise e" "raise e \<noteq> ret v s" "raise e \<noteq> None"
  "(raise e :: 'a result) = raise e' \<longleftrightarrow> e = e'"
  by (simp_all add: ret_def raise_def)

lemma lift_simps [simp]:
  "lift (Inr v) s = ret v s"
  "lift (Inl e) s = raise e"
  by (simp_all add: lift_def)

lemma bindE_simps [simp]:
  "bindE (Inr v) k = k v"
  "bindE (Inl e) k = Inl e"
  by (simp_all add: bindE_def)

lemma load_simp [simp]: "x < length s \<Longrightarrow> load s x = Inr (s ! x)"
  by (simp add: load_def)

lemma read_Enum [simp]:
  "x < length s \<Longrightarrow> s ! x = Enum cons cards \<Longrightarrow> self_cards s x = Inr cards"
  "x < length s \<Longrightarrow> s ! x = Enum cons cards \<Longrightarrow> self_constructors s x = Inr cons"
  by (simp_all add: self_cards_def self_constructors_def)

lemma read_Constructor [simp]:
  "x < length s \<Longrightarrow> s ! x = Constructor con enums nxt cs \<Longrightarrow> self_enums s x = Inr enums"
  "x < length s \<Longrightarrow> s ! x = Constructor con enums nxt cs \<Longrightarrow> self_next s x = Inr nxt"
  "x < length s \<Longrightarrow> s ! x = Constructor con enums nxt cs \<Longrightarrow> self_cs s x = Inr cs"
  "x < length s \<Longrightarrow> s ! x = Constructor con enums nxt cs \<Longrightarrow> self_con s x = Inr con"
  by (simp_all add: self_enums_def self_next_def self_cs_def self_con_def)

lemma cards_append_Enum [simp]:
  "x < length s \<Longrightarrow> s ! x = Enum cons cards \<Longrightarrow>
   cards_append x c s = ret () (s[x := Enum cons (cards @ [c])])"
  by (simp add: cards_append_def)

lemma cs_append_Constructor [simp]:
  "x < length s \<Longrightarrow> s ! x = Constructor con enums nxt cs \<Longrightarrow>
   cs_append x k c s = ret () (s[x := Constructor con enums nxt (cs[k := cs ! k @ [c]])])"
  by (simp add: cs_append_def)

lemma set_next_Constructor [simp]:
  "x < length s \<Longrightarrow> s ! x = Constructor con enums nxt cs \<Longrightarrow>
   set_next x v s = ret () (s[x := Constructor con enums v cs])"
  by (simp add: set_next_def)

lemma cspecD:
  assumes "cspec G crec n x" "st G {} m e s" "0 \<le> m" "e < length G" "lexlt m e n x"
  obtains s' where "crec s e m = ret (scard G e m) s'" "rel {} m e s s'" "goodS G s'"
  using assms unfolding cspec_def by blast

text \<open>A callee of the method running at bound \<open>(n, x)\<close>, from a state \<open>u\<close> of that method.\<close>

lemma callee:
  assumes spec: "cspec G crec n x" and u: "st G X n x u"
    and m: "0 \<le> m" and e: "e < length G" and lt: "lexlt m e n x"
    and X: "\<And>q. q \<in> X \<Longrightarrow> q < length u \<Longrightarrow> lexlt m e (frontier (u ! q)) q"
  obtains u' where "crec u e m = ret (scard G e m) u'" "rel {} m e u u'" "st G X n x u'"
    "rel X n x u u'" "\<And>q. q \<in> X \<Longrightarrow> q < length u \<Longrightarrow> u' ! q = u ! q"
proof -
  have le: "lexle m e n x" using lt by (rule lexlt_imp_lexle)
  have "st G {} m e u" using u le X by (rule st_call)
  from cspecD [OF spec this m e lt] obtain u' where
    1: "crec u e m = ret (scard G e m) u'" and 2: "rel {} m e u u'" and 3: "goodS G u'"
    by blast
  have 4: "st G X n x u'" using u 2 3 le by (rule st_after)
  have 5: "rel X n x u u'" using rel_trans [OF rel_refl 2 le] by simp
  have 6: "u' ! q = u ! q" if "q \<in> X" "q < length u" for q
    using rel_frame [OF 2 that(2) X [OF that]] .
  show thesis using that 1 2 4 5 6 by blast
qed

lemma Enum_card_sum_ok:
  assumes spec: "cspec G crec n x" and x: "x < length G"
    and u: "st G {} n x u" and ux: "u ! x = Enum cons0 cards"
    and L: "0 < length cards" "int (length cards) \<le> n"
    and cons: "\<forall>c\<in>set cons. c < length G"
  shows "\<exists>u'. Enum_card_sum crec x cons c u =
            ret (c + (\<Sum>c'\<leftarrow>cons. scard G c' (int (length cards) - 1))) u' \<and>
          rel {} n x u u' \<and> st G {} n x u' \<and> u' ! x = u ! x"
  using u ux cons
proof (induction cons arbitrary: c u)
  case Nil
  then show ?case by (intro exI [of _ u]) simp
next
  case (Cons a cons)
  have xl: "x < length u" using Cons.prems(1) x by (simp add: st_length)
  have lt: "lexlt (int (length cards) - 1) a n x" using L by (simp add: lexlt_def)
  from callee [OF spec Cons.prems(1) _ _ lt] L Cons.prems(3)
  obtain u1 where 1: "crec u a (int (length cards) - 1) = ret (scard G a (int (length cards) - 1)) u1"
    and 2: "rel {} (int (length cards) - 1) a u u1" and 3: "st G {} n x u1" and 4: "rel {} n x u u1"
    by auto
  have "lexlt (int (length cards) - 1) a (frontier (u ! x)) x"
    using Cons.prems(2) by (simp add: lexlt_def)
  then have 5: "u1 ! x = u ! x" using rel_frame [OF 2 xl] by simp
  from Cons.IH [OF 3, of "c + scard G a (int (length cards) - 1)"] 5 Cons.prems
  obtain u' where 6: "Enum_card_sum crec x cons (c + scard G a (int (length cards) - 1)) u1 =
       ret (c + scard G a (int (length cards) - 1) + (\<Sum>c'\<leftarrow>cons. scard G c' (int (length cards) - 1))) u'"
    and 7: "rel {} n x u1 u'" and 8: "st G {} n x u'" and 9: "u' ! x = u1 ! x"
    by auto
  have "rel {} n x u u'" using rel_trans [OF 4 7] by simp
  then show ?case using 1 5 6 8 9 xl Cons.prems(2) by (simp add: add.assoc)
qed

lemma st_shape_Enum:
  assumes "st G X n x u" "x < length G" "G ! x = Enum cons cards0"
  obtains cards where "u ! x = Enum cons cards" "cards \<noteq> []"
    "\<And>m. 0 < m \<Longrightarrow> m < length cards \<Longrightarrow> cards ! m = scard G x (int m)"
proof -
  have e: "erase (u ! x) = Enum cons [0]" using st_erase [OF assms(1,2)] assms(3) by simp
  then obtain cards where c: "u ! x = Enum cons cards" by (cases "u ! x") auto
  have "good_obj G x (u ! x)" using assms by (simp add: st_good)
  then show thesis using that c by simp
qed

lemma py_get_nat [simp]: "0 \<le> i \<Longrightarrow> i < int (length xs) \<Longrightarrow> py_get xs i = Inr (xs ! nat i)"
  by (simp add: py_get_def)

lemma Enum_card_loop_ok:
  assumes spec: "cspec G crec n x" and wf: "wf_store G" and x: "x < length G"
    and Gx: "G ! x = Enum cons cards0" and n: "0 < n"
  shows "st G {} n x u \<Longrightarrow> u ! x = Enum cons cards \<Longrightarrow> nat (n + 1 - int (length cards)) < k \<Longrightarrow>
     \<exists>u'. Enum_card_loop k crec x n u = ret (scard G x n) u' \<and> rel {} n x u u' \<and> st G {} n x u' \<and>
       cached (u' ! x) n"
proof (induction k arbitrary: u cards)
  case 0
  then show ?case by simp
next
  case (Suc k)
  note u = Suc.prems(1) and ux = Suc.prems(2)
  have xl: "x < length u" using u x by (simp add: st_length)
  from st_shape_Enum [OF u x Gx] ux
  have ne: "cards \<noteq> []"
    and val: "\<And>m. 0 < m \<Longrightarrow> m < length cards \<Longrightarrow> cards ! m = scard G x (int m)"
    by auto
  have cons: "\<forall>c\<in>set cons. c < length G"
    using wf x Gx by (auto simp: wf_store_def)
  show ?case
  proof (cases "int (length cards) \<le> n")
    case False
    then have "cards ! nat n = scard G x n" using val [of "nat n"] n by simp
    then show ?thesis using False xl ux n u
      by (intro exI [of _ u]) simp
  next
    case True
    let ?L = "int (length cards)"
    let ?v = "\<Sum>c'\<leftarrow>cons. scard G c' (?L - 1)"
    from Enum_card_sum_ok [OF spec x u ux _ True cons, of 0] ne
    obtain u1 where 1: "Enum_card_sum crec x cons 0 u = ret ?v u1"
      and 2: "rel {} n x u u1" and 3: "st G {} n x u1" and 4: "u1 ! x = u ! x"
      by auto
    have xl1: "x < length u1" using 3 x by (simp add: st_length)
    have v: "?v = scard G x ?L" using scard_Enum [OF x Gx, of ?L] ne by simp
    let ?ob = "Enum cons (cards @ [?v])"
    let ?u2 = "u1[x := ?ob]"
    have good: "good_obj G x ?ob"
      using val v by (auto simp: nth_append less_Suc_eq)
    have 5: "st G {} n x ?u2"
      using 3 xl1 _ good by (rule st_update) (simp_all add: 4 ux)
    have 6: "rel {} n x u ?u2"
      using 2 xl1 by (rule rel_update) (use True in \<open>simp_all add: 4 ux lexlt_def\<close>)
    have "nat (n + 1 - int (length (cards @ [?v]))) < k" using Suc.prems(3) True by simp
    from Suc.IH [OF 5 _ this] xl1
    obtain u' where 7: "Enum_card_loop k crec x n ?u2 = ret (scard G x n) u'"
      and 8: "rel {} n x ?u2 u'" and 9: "st G {} n x u'" and 10: "cached (u' ! x) n"
      by auto
    have "rel {} n x u u'" using rel_trans [OF 6 8] by simp
    then show ?thesis using True xl ux 1 4 xl1 7 9 10 by simp
  qed
qed

lemma Enum_card_ok:
  assumes spec: "cspec G crec n x" and wf: "wf_store G" and x: "x < length G"
    and Gx: "G ! x = Enum cons cards0" and u: "st G {} n x u" and k: "nat n < k"
  shows "\<exists>u'. Enum_card k crec x n u = ret (scard G x n) u' \<and> rel {} n x u u' \<and> st G {} n x u' \<and>
    cached (u' ! x) n"
proof (cases "n \<le> 0")
  case True
  from st_shape_Enum [OF u x Gx] obtain cards where "u ! x = Enum cons cards"
    by blast
  then show ?thesis using True u scard_Enum [OF x Gx, of n]
    by (intro exI [of _ u]) (simp add: Enum_card_def)
next
  case False
  from st_shape_Enum [OF u x Gx] obtain cards where c: "u ! x = Enum cons cards" "cards \<noteq> []"
    by blast
  have "nat (n + 1 - int (length cards)) < k" using k c False by (cases cards) auto
  from Enum_card_loop_ok [OF spec wf x Gx _ u c(1) this] False
  show ?thesis by (simp add: Enum_card_def)
qed

lemma st_shape_Constructor:
  assumes "st G X n x u" "x < length G" "G ! x = Constructor con enums nxt0 cs0"
  obtains t cs where "u ! x = Constructor con enums t cs" "good_obj G x (Constructor con enums t cs)"
proof -
  have e: "erase (u ! x) = erase (Constructor con enums nxt0 cs0)"
    using st_erase [OF assms(1,2)] assms(3) by simp
  then obtain t cs where c: "u ! x = Constructor con enums t cs" by (cases "u ! x") auto
  have "good_obj G x (u ! x)" using assms by (simp add: st_good)
  then show thesis using that c by simp
qed

lemma py_get_int [simp]: "k < length xs \<Longrightarrow> py_get xs (int k) = Inr (xs ! k)"
  by (simp add: py_get_def)

lemma py_pos_int [simp]: "k < length xs \<Longrightarrow> py_pos xs (int k) = Inr k"
  by (simp add: py_pos_def)

lemma py_get_last [simp]: "xs \<noteq> [] \<Longrightarrow> py_get xs (- 1) = Inr (xs ! (length xs - 1))"
  by (cases xs) (auto simp: py_get_def nat_diff_distrib')

lemma py_pos_last [simp]: "xs \<noteq> [] \<Longrightarrow> py_pos xs (- 1) = Inr (length xs - 1)"
  by (cases xs) (auto simp: py_pos_def)

lemma self_cs_at_Suc:
  "x < length s \<Longrightarrow> s ! x = Constructor con enums t cs \<Longrightarrow> Suc k < length cs \<Longrightarrow>
   0 \<le> i \<Longrightarrow> i < int (length (cs ! Suc k)) \<Longrightarrow>
   self_cs_at s x (int k + 1) i = Inr (cs ! Suc k ! nat i)"
  using py_get_int [of "Suc k" cs] by (simp add: self_cs_at_def add.commute)

lemma self_cs_at_0:
  "x < length s \<Longrightarrow> s ! x = Constructor con enums t cs \<Longrightarrow> cs \<noteq> [] \<Longrightarrow>
   0 \<le> i \<Longrightarrow> i < int (length (cs ! 0)) \<Longrightarrow>
   self_cs_at s x 0 i = Inr (cs ! 0 ! nat i)"
  using py_get_int [of 0 cs] by (simp add: self_cs_at_def)

lemma prodcard_Cons:
  "es \<noteq> [] \<Longrightarrow> prodcard C (e # es) n = (\<Sum>i\<leftarrow>[0..n]. prodcard C es i * C e (n - i))"
  by (cases es) simp_all

lemma prodcard_drop:
  "Suc k < length es \<Longrightarrow>
   prodcard C (drop k es) n = (\<Sum>i\<leftarrow>[0..n]. prodcard C (drop (Suc k) es) i * C (es ! k) (n - i))"
  using prodcard_Cons [of "drop (Suc k) es" C "es ! k" n]
  by (simp add: Cons_nth_drop_Suc)

lemma prodcard_drop_last:
  "es \<noteq> [] \<Longrightarrow> prodcard C (drop (length es - 1) es) n = C (es ! (length es - 1)) n"
proof -
  assume "es \<noteq> []"
  then have "drop (length es - 1) es = [es ! (length es - 1)]"
    by (metis Cons_nth_drop_Suc Suc_diff_1 diff_less drop_all length_greater_0_conv
        less_numeral_extra(1) order_refl)
  then show ?thesis by simp
qed

lemma expand_sum_ok:
  assumes spec: "cspec G crec n x" and x: "x < length G" and wfx: "\<forall>e\<in>set enums. e < x"
    and t: "0 \<le> t" "t \<le> n" and k: "Suc k < length enums" and lcs: "length cs = length enums"
    and row: "t < int (length (cs ! Suc k))"
    and rowv: "\<forall>m<length (cs ! Suc k). cs ! Suc k ! m = prodcard (scard G) (drop (Suc k) enums) (int m)"
  shows "st G {x} n x u \<Longrightarrow> u ! x = Constructor con enums t cs \<Longrightarrow> \<forall>i\<in>set is. 0 \<le> i \<and> i \<le> t \<Longrightarrow>
     \<exists>u'. expand_sum crec x (int k) is c u =
            ret (c + (\<Sum>i\<leftarrow>is. prodcard (scard G) (drop (Suc k) enums) i * scard G (enums ! k) (t - i))) u' \<and>
          rel {x} n x u u' \<and> st G {x} n x u' \<and> u' ! x = u ! x"
proof (induction "is" arbitrary: c u)
  case Nil
  then show ?case by (intro exI [of _ u]) simp
next
  case (Cons i "is")
  note u = Cons.prems(1) and ux = Cons.prems(2)
  have xl: "x < length u" using u x by (simp add: st_length)
  have i: "0 \<le> i" "i \<le> t" using Cons.prems(3) by auto
  let ?e = "enums ! k"
  have e: "?e < x" using wfx k by simp
  have a: "self_cs_at u x (int k + 1) i = Inr (prodcard (scard G) (drop (Suc k) enums) i)"
    using self_cs_at_Suc [OF xl ux, of k i] k lcs i row rowv by simp
  have lt: "lexlt (t - i) ?e n x" using i t e by (auto simp: lexlt_def)
  have fr: "lexlt (t - i) ?e (frontier (u ! q)) q" if "q \<in> {x}" for q
    using that ux i e by (auto simp: lexlt_def)
  from callee [OF spec u _ _ lt fr] i e x
  obtain u1 where 1: "crec u ?e (t - i) = ret (scard G ?e (t - i)) u1"
    and 3: "st G {x} n x u1" and 4: "rel {x} n x u u1" and 5: "u1 ! x = u ! x"
    using xl by (metis diff_ge_0_iff_ge insertI1 less_trans)
  let ?c = "c + prodcard (scard G) (drop (Suc k) enums) i * scard G ?e (t - i)"
  from Cons.IH [OF 3, of ?c] 5 ux Cons.prems(3)
  obtain u' where 6: "expand_sum crec x (int k) is ?c u1 =
       ret (?c + (\<Sum>i\<leftarrow>is. prodcard (scard G) (drop (Suc k) enums) i * scard G ?e (t - i))) u'"
    and 7: "rel {x} n x u1 u'" and 8: "st G {x} n x u'" and 9: "u' ! x = u1 ! x"
    by auto
  have "rel {x} n x u u'" using rel_trans [OF 4 7] by simp
  then show ?case using a 1 5 6 8 9 xl ux k by (simp add: add.assoc)
qed

lemma rev_upto_int: "rev [0..int (Suc j) - 1] = int j # rev [0..int j - 1]"
proof -
  have "[0..int j] = [0..int j - 1] @ [int j]" by (rule upto_rec2) simp
  then show ?thesis by simp
qed

lemma st_weaken: "st G X n x s \<Longrightarrow> X \<subseteq> Y \<Longrightarrow> st G Y n x s"
  by (auto simp: st_def)

lemma st_update_tidy:
  assumes "st G {x} n x s" "x < length s" "erase ob = erase (s ! x)" "good_obj G x ob" "tidy ob"
  shows "st G {} n x (s[x := ob])"
  unfolding st_def
proof (intro conjI allI impI)
  show "map erase (s[x := ob]) = map erase G"
    using assms by (simp add: st_def map_update) (metis list_update_id nth_map length_map)
next
  fix q assume q: "q < length (s[x := ob])"
  show "good_obj G q (s[x := ob] ! q)"
    using assms q by (cases "q = x") (auto simp: st_def)
  show "lexlt n x (frontier (s[x := ob] ! q)) q" if "q \<notin> {}" "\<not> tidy (s[x := ob] ! q)"
    using assms q that by (cases "q = x") (auto simp: st_def)
qed

lemma expand_cols_ok:
  assumes spec: "cspec G crec n x" and x: "x < length G" and wfx: "\<forall>e\<in>set enums. e < x"
    and t: "0 \<le> t" "t \<le> n"
  shows "st G {x} n x u \<Longrightarrow> u ! x = Constructor con enums t cs \<Longrightarrow> j < length enums \<Longrightarrow>
     \<forall>k<length enums. int (length (cs ! k)) = (if k < j then t else t + 1) \<Longrightarrow>
     \<exists>u' cs'. expand_cols crec x (rev [0..int j - 1]) u = ret () u' \<and>
          rel {x} n x u u' \<and> st G {x} n x u' \<and> u' ! x = Constructor con enums t cs' \<and>
          (\<forall>k<length enums. int (length (cs' ! k)) = t + 1)"
proof (induction j arbitrary: u cs)
  case 0
  then show ?case by (intro exI [of _ u] exI [of _ cs]) simp
next
  case (Suc j)
  note u = Suc.prems(1) and ux = Suc.prems(2) and j = Suc.prems(3) and rows = Suc.prems(4)
  have xl: "x < length u" using u x by (simp add: st_length)
  have xG: "x < length G" by (rule x)
  have good: "good_obj G x (Constructor con enums t cs)"
    using st_good [OF u xG] ux by simp
  then have lcs: "length cs = length enums" by simp
  have rowv: "\<forall>m<length (cs ! k). cs ! k ! m = prodcard (scard G) (drop k enums) (int m)"
    if "k < length enums" for k using good that by simp
  have row: "t < int (length (cs ! Suc j))" using rows j by simp
  let ?c = "\<Sum>i\<leftarrow>[0..t]. prodcard (scard G) (drop (Suc j) enums) i * scard G (enums ! j) (t - i)"
  from expand_sum_ok [OF spec x wfx t j lcs row rowv [OF j] u ux, of "[0..t]" 0]
  obtain u1 where 1: "expand_sum crec x (int j) [0..t] 0 u = ret ?c u1"
    and 2: "rel {x} n x u u1" and 3: "st G {x} n x u1" and 4: "u1 ! x = u ! x"
    by auto
  have xl1: "x < length u1" using 3 x by (simp add: st_length)
  have c: "?c = prodcard (scard G) (drop j enums) t" using prodcard_drop [OF j] by simp
  let ?cs = "cs[j := cs ! j @ [?c]]"
  let ?ob = "Constructor con enums t ?cs"
  let ?u2 = "u1[x := ?ob]"
  have lj: "int (length (cs ! j)) = t" using rows j by simp
  have good2: "good_obj G x ?ob"
    unfolding good_obj.simps
  proof (intro conjI allI impI)
    show "length ?cs = length enums" using lcs by simp
    show "0 \<le> t" by (rule t)
  next
    fix k assume k: "k < length enums"
    show "t \<le> int (length (?cs ! k))"
      using rows k lcs by (cases "k = j") (auto split: if_splits)
  next
    fix k m assume k: "k < length enums" and m: "m < length (?cs ! k)"
    show "?cs ! k ! m = prodcard (scard G) (drop k enums) (int m)"
    proof (cases "k = j")
      case False
      then show ?thesis using rowv [OF k] m lcs k by simp
    next
      case True
      show ?thesis
      proof (cases "m < length (cs ! j)")
        case True
        then show ?thesis using rowv [OF k] \<open>k = j\<close> lcs k by (simp add: nth_append)
      next
        case False
        then have "m = length (cs ! j)" using m True lcs k by simp
        then show ?thesis using c True lcs k lj by (simp add: nth_append)
      qed
    qed
  qed
  have 5: "st G {x} n x ?u2"
    using 3 xl1 _ good2 by (rule st_update) (simp_all add: 4 ux)
  have "prefix (cs ! k) (?cs ! k)" if "k < length cs" for k
    using that by (cases "k = j") simp_all
  then have ole: "obj_le (u1 ! x) ?ob"
    by (simp add: 4 ux)
  have 6: "rel {x} n x u ?u2"
    using 2 xl1 ole by (rule rel_update) (use t in \<open>simp_all add: ux lexlt_def\<close>)
  have rows2: "\<forall>k<length enums. int (length (?cs ! k)) = (if k < j then t else t + 1)"
    using rows lcs by (auto simp: nth_list_update)
  have "j < length enums" using j by simp
  from Suc.IH [OF 5 _ this rows2] xl1
  obtain u' cs' where 7: "expand_cols crec x (rev [0..int j - 1]) ?u2 = ret () u'"
    and 8: "rel {x} n x ?u2 u'" and 9: "st G {x} n x u'"
    and 10: "u' ! x = Constructor con enums t cs'"
    and 11: "\<forall>k<length enums. int (length (cs' ! k)) = t + 1"
    by auto
  have 12: "rel {x} n x u u'" using rel_trans [OF 6 8] by simp
  have pos: "py_pos cs (int j) = Inr j" using j lcs by simp
  have "expand_cols crec x (rev [0..int (Suc j) - 1]) u = ret () u'"
    unfolding rev_upto_int using xl ux 1 4 xl1 pos 7 by simp
  then show ?case using 12 9 10 11 by blast
qed

lemma expand_loop_ok:
  assumes spec: "cspec G crec n x" and wf: "wf_store G" and x: "x < length G"
    and Gx: "G ! x = Constructor con enums nxt0 cs0"
  shows "st G {} n x u \<Longrightarrow> u ! x = Constructor con enums t cs \<Longrightarrow> nat (n + 1 - t) < k \<Longrightarrow>
     \<exists>u' t' cs'. expand_loop k crec x n u = ret () u' \<and> rel {} n x u u' \<and> st G {} n x u' \<and>
        u' ! x = Constructor con enums t' cs' \<and> n < t'"
proof (induction k arbitrary: u t cs)
  case 0
  then show ?case by simp
next
  case (Suc k)
  note u = Suc.prems(1) and ux = Suc.prems(2)
  have xl: "x < length u" using u x by (simp add: st_length)
  have wfx: "\<forall>e\<in>set enums. e < x" and ne: "enums \<noteq> []"
    using wf x Gx by (auto simp: wf_store_def)
  have good: "good_obj G x (Constructor con enums t cs)"
    using st_good [OF u x] ux by simp
  then have lcs: "length cs = length enums" and t0: "0 \<le> t" by simp_all
  have rowv: "\<forall>m<length (cs ! k). cs ! k ! m = prodcard (scard G) (drop k enums) (int m)"
    if "k < length enums" for k using good that by simp
  show ?case
  proof (cases "t \<le> n")
    case False
    then show ?thesis using xl ux u
      by (intro exI [of _ u] exI [of _ t] exI [of _ cs]) simp
  next
    case True
    have "tidy (u ! x)"
    proof (rule ccontr)
      assume "\<not> tidy (u ! x)"
      then have "lexlt n x (frontier (u ! x)) x" using u xl by (simp add: st_def)
      then show False using ux True by (simp add: lexlt_def)
    qed
    then have rows: "\<forall>k<length enums. int (length (cs ! k)) = t"
      using ux lcs by simp
    let ?K = "length enums - 1"
    let ?e = "enums ! ?K"
    have K: "?K < length enums" using ne by simp
    have e: "?e < x" using wfx K by simp
    have lt: "lexlt t ?e n x" using True e by (auto simp: lexlt_def)
    have eG: "?e < length G" using e x by simp
    have fr0: "lexlt t ?e (frontier (u ! q)) q" if "q \<in> {}" for q :: nat
      using that by simp
    from callee [OF spec u t0 eG lt fr0]
    obtain u1 where 1: "crec u ?e t = ret (scard G ?e t) u1"
      and 2: "rel {} t ?e u u1" and 3: "st G {} n x u1" and 4: "rel {} n x u u1"
      by blast
    have "lexlt t ?e (frontier (u ! x)) x" using ux e by (simp add: lexlt_def)
    then have 5: "u1 ! x = u ! x" using rel_frame [OF 2 xl] by simp
    have xl1: "x < length u1" using 3 x by (simp add: st_length)
    let ?v = "scard G ?e t"
    let ?cs = "cs[?K := cs ! ?K @ [?v]]"
    let ?ob = "Constructor con enums t ?cs"
    let ?u2 = "u1[x := ?ob]"
    have v: "?v = prodcard (scard G) (drop ?K enums) t"
      using prodcard_drop_last [OF ne] by simp
    have good2: "good_obj G x ?ob"
      unfolding good_obj.simps
    proof (intro conjI allI impI)
      show "length ?cs = length enums" using lcs by simp
      show "0 \<le> t" by (rule t0)
    next
      fix k assume k: "k < length enums"
      show "t \<le> int (length (?cs ! k))"
        using rows k lcs by (cases "k = ?K") auto
    next
      fix k m assume k: "k < length enums" and m: "m < length (?cs ! k)"
      show "?cs ! k ! m = prodcard (scard G) (drop k enums) (int m)"
      proof (cases "k = ?K")
        case False
        then show ?thesis using rowv [OF k] m lcs k by simp
      next
        case kK: True
        show ?thesis
        proof (cases "m < length (cs ! ?K)")
          case True
          then show ?thesis using rowv [OF k] kK lcs k by (simp add: nth_append)
        next
          case False
          then have "m = length (cs ! ?K)" using m kK lcs k by simp
          then show ?thesis using v kK lcs k rows by (simp add: nth_append)
        qed
      qed
    qed
    have 6: "st G {x} n x ?u2"
      using st_weaken [OF 3, of "{x}"] xl1 _ good2 by (rule st_update) (simp_all add: 5 ux)
    have "prefix (cs ! k) (?cs ! k)" if "k < length cs" for k
      using that by (cases "k = ?K") simp_all
    then have ole: "obj_le (u1 ! x) ?ob"
      by (simp add: 5 ux)
    have 7: "rel {x} n x u ?u2"
      using rel_weaken [OF 4, of "{x}"] xl1 ole
      by (rule rel_update) (use True in \<open>simp_all add: ux lexlt_def\<close>)
    have rows2: "\<forall>k<length enums. int (length (?cs ! k)) = (if k < ?K then t else t + 1)"
      using rows lcs K by (auto simp: nth_list_update)
    have u2x: "?u2 ! x = ?ob" using xl1 by simp
    from expand_cols_ok [OF spec x wfx t0 True 6 u2x K rows2]
    obtain u3 cs3 where 8: "expand_cols crec x (rev [0..int ?K - 1]) ?u2 = ret () u3"
      and 9: "rel {x} n x ?u2 u3" and 10: "st G {x} n x u3"
      and 11: "u3 ! x = Constructor con enums t cs3"
      and 12: "\<forall>k<length enums. int (length (cs3 ! k)) = t + 1"
      by auto
    have xl3: "x < length u3" using 10 x by (simp add: st_length)
    have good3: "good_obj G x (Constructor con enums t cs3)"
      using st_good [OF 10 x] 11 by simp
    let ?ob4 = "Constructor con enums (t + 1) cs3"
    let ?u4 = "u3[x := ?ob4]"
    have lcs3: "length cs3 = length enums" using good3 by simp
    have good4: "good_obj G x ?ob4" using good3 12 by simp
    have tidy4: "tidy ?ob4" using 12 lcs3 by (auto simp: in_set_conv_nth)
    have 13: "st G {} n x ?u4"
      using 10 xl3 _ good4 tidy4 by (rule st_update_tidy) (simp add: 11)
    have 14: "rel {x} n x u u3" using rel_trans [OF 7 9] by simp
    have "rel {x} n x u ?u4"
      using 14 xl3 by (rule rel_update) (use True in \<open>simp_all add: 11 ux lexlt_def\<close>)
    then have 15: "rel {} n x u ?u4"
      by (rule rel_tidy) (use xl3 tidy4 in simp_all)
    have "nat (n + 1 - (t + 1)) < k" using Suc.prems(3) True by simp
    from Suc.IH [OF 13 _ this] xl3
    obtain u' t' cs' where 16: "expand_loop k crec x n ?u4 = ret () u'"
      and 17: "rel {} n x ?u4 u'" and 18: "st G {} n x u'"
      and 19: "u' ! x = Constructor con enums t' cs'" and 20: "n < t'"
      by auto
    have 21: "rel {} n x u u'" using rel_trans [OF 15 17] by simp
    have idx: "int (length enums) - 2 = int ?K - 1" using ne by (cases enums) simp_all
    have c8: "expand_cols crec x (rev [0..int (length enums) - 2]) ?u2 = ret () u3"
      unfolding idx by (rule 8)
    have cne: "cs \<noteq> []" using lcs ne by auto
    have "expand_loop (Suc k) crec x n u = ret () u'"
      using xl ux True lcs ne cne 1 5 xl1 c8 11 xl3 16 by simp
    then show ?thesis using 21 18 19 20 by blast
  qed
qed

lemma Constructor_card_ok:
  assumes spec: "cspec G crec n x" and wf: "wf_store G" and x: "x < length G"
    and Gx: "G ! x = Constructor con enums nxt0 cs0" and n: "0 \<le> n"
    and u: "st G {} n x u" and k: "nat n + 1 < k"
  shows "\<exists>u'. Constructor_card k crec x n u = ret (scard G x n) u' \<and> rel {} n x u u' \<and> st G {} n x u' \<and>
    cached (u' ! x) n"
proof -
  have xl: "x < length u" using u x by (simp add: st_length)
  have wfx: "\<forall>e\<in>set enums. e < x" and ne: "enums \<noteq> []"
    using wf x Gx by (auto simp: wf_store_def)
  from st_shape_Constructor [OF u x Gx] obtain t cs
    where ux: "u ! x = Constructor con enums t cs" and good: "good_obj G x (Constructor con enums t cs)"
    by blast
  have "0 \<le> t" using good by simp
  then have "n + 1 - t \<le> int (nat n + 1)" using n by simp
  then have "nat (n + 1 - t) \<le> nat n + 1" by (simp only: nat_le_iff)
  then have "nat (n + 1 - t) < k" using k by simp
  from expand_loop_ok [OF spec wf x Gx u ux this]
  obtain u' t' cs' where 1: "expand_loop k crec x n u = ret () u'"
    and 2: "rel {} n x u u'" and 3: "st G {} n x u'"
    and 4: "u' ! x = Constructor con enums t' cs'" and 5: "n < t'"
    by blast
  have xl': "x < length u'" using 3 x by (simp add: st_length)
  have good': "good_obj G x (Constructor con enums t' cs')"
    using st_good [OF 3 x] 4 by simp
  have k0: "0 < length enums" using ne by simp
  have lcs': "length cs' = length enums" using good' by simp
  have r0: "t' \<le> int (length (cs' ! 0))" using good' k0 by simp
  have v0: "\<forall>m<length (cs' ! 0). cs' ! 0 ! m = prodcard (scard G) (drop 0 enums) (int m)"
    using good' k0 by simp
  have nl: "n < int (length (cs' ! 0))" using r0 5 by simp
  then have "nat n < length (cs' ! 0)" using n by simp
  then have "cs' ! 0 ! nat n = prodcard (scard G) enums n" using v0 n by simp
  moreover have "scard G x n = prodcard (scard G) enums n"
    using x Gx wfx n by (rule scard_Constructor)
  moreover have "cs' \<noteq> []" using lcs' ne by auto
  ultimately have "self_cs_at u' x 0 n = Inr (scard G x n)"
    using self_cs_at_0 [OF xl' 4, of n] n nl by simp
  then show ?thesis using 1 2 3 4 5 xl ux
    by (intro exI [of _ u']) (simp add: Constructor_card_def Constructor_expand_def)
qed

lemma erase_IntEnum: "erase ob = IntEnum \<Longrightarrow> ob = IntEnum"
  by (cases ob) auto

lemma erase_Nullary: "erase ob = Nullary con \<Longrightarrow> ob = Nullary con"
  by (cases ob) auto

lemma erase_Unary: "erase ob = Unary con enums \<Longrightarrow> ob = Unary con enums"
  by (cases ob) auto

lemma erase_idem [simp]: "erase (erase ob) = erase ob"
  by (cases ob) auto

lemma rel_raise_bound: "rel {} m e s s' \<Longrightarrow> lexle m e n x \<Longrightarrow> rel {} n x s s'"
  using rel_trans [OF rel_refl, of "{}" m e s s' n x "{}"] by simp

lemma card_body_ok:
  assumes spec: "cspec G crec n x" and wf: "wf_store G" and x: "x < length G"
    and n: "0 \<le> n" and u: "st G {} n x u" and k: "nat n + 1 < k"
  shows "\<exists>u'. card_body k crec u x n = ret (scard G x n) u' \<and> rel {} n x u u' \<and> goodS G u' \<and>
    cached (u' ! x) n"
proof -
  have xl: "x < length u" using u x by (simp add: st_length)
  have er: "erase (u ! x) = erase (G ! x)" using u x by (rule st_erase)
  show ?thesis
  proof (cases "G ! x")
    case IntEnum
    then have "u ! x = IntEnum" using er by (simp add: erase_IntEnum)
    then show ?thesis using xl u scard_IntEnum [OF x IntEnum]
      by (intro exI [of _ u]) (simp add: card_body_def st_goodS)
  next
    case (Enum cons cards0)
    then obtain cards where ux: "u ! x = Enum cons cards"
      using st_shape_Enum [OF u x Enum] by blast
    from Enum_card_ok [OF spec wf x Enum u, of k] k
    obtain u' where "Enum_card k crec x n u = ret (scard G x n) u'" "rel {} n x u u'" "st G {} n x u'"
      "cached (u' ! x) n"
      by auto
    then show ?thesis using xl ux
      by (intro exI [of _ u']) (simp add: card_body_def st_goodS)
  next
    case (Nullary con)
    then have "u ! x = Nullary con" using er by (simp add: erase_Nullary)
    then show ?thesis using xl u scard_Nullary [OF x Nullary]
      by (intro exI [of _ u]) (simp add: card_body_def st_goodS)
  next
    case (Unary con enums)
    then have ux: "u ! x = Unary con enums" using er by (simp add: erase_Unary)
    have "wf_obj (length G) x (Unary con enums)"
      using wf x Unary by (auto simp: wf_store_def)
    then obtain e where en: "enums = [e]" and e: "e < x"
      by (cases enums) auto
    have eG: "e < length G" using e x by simp
    have lt: "lexlt n e n x" using e by (simp add: lexlt_def)
    have fr0: "lexlt n e (frontier (u ! q)) q" if "q \<in> {}" for q :: nat
      using that by simp
    from callee [OF spec u n eG lt fr0]
    obtain u' where 1: "crec u e n = ret (scard G e n) u'"
      and 2: "rel {} n e u u'" and 3: "st G {} n x u'"
      by blast
    have 4: "rel {} n x u u'" using 2 lexlt_imp_lexle [OF lt] by (rule rel_raise_bound)
    have "scard G x n = scard G e n" using x Unary e unfolding en by (rule scard_Unary)
    moreover have "u' ! x = Unary con enums"
      using st_erase [OF 3 x] Unary by (simp add: erase_Unary)
    ultimately show ?thesis using xl ux en 1 3 4
      by (intro exI [of _ u']) (simp add: card_body_def st_goodS py_get_def)
  next
    case (Constructor con enums nxt0 cs0)
    then obtain t cs where ux: "u ! x = Constructor con enums t cs"
      using st_shape_Constructor [OF u x Constructor] by blast
    from Constructor_card_ok [OF spec wf x Constructor n u k]
    obtain u' where "Constructor_card k crec x n u = ret (scard G x n) u'" "rel {} n x u u'"
      "st G {} n x u'" "cached (u' ! x) n"
      by auto
    then show ?thesis using xl ux
      by (intro exI [of _ u']) (simp add: card_body_def st_goodS)
  qed
qed

section \<open>Totality of card, and the claims about card\<close>

lemma common_fuel:
  assumes "finite A" and "\<And>a. a \<in> A \<Longrightarrow> \<exists>F. \<forall>f\<ge>F. P a (f::nat)"
  shows "\<exists>F. \<forall>a\<in>A. \<forall>f\<ge>F. P a f"
  using assms
proof (induction A rule: finite_induct)
  case empty
  then show ?case by simp
next
  case (insert a A)
  then obtain F1 where 1: "\<forall>b\<in>A. \<forall>f\<ge>F1. P b f" by auto
  from insert.prems obtain F2 where 2: "\<forall>f\<ge>F2. P a f" by auto
  show ?case using 1 2 by (intro exI [of _ "max F1 F2"]) auto
qed

lemma lex_measure:
  assumes "lexlt m e n x" "0 \<le> m" "e < N" "x < N"
  shows "nat m * N + e < nat n * N + x"
proof (cases "m < n")
  case True
  then have "Suc (nat m) \<le> nat n" using assms(2) by simp
  then have "Suc (nat m) * N \<le> nat n * N" by (rule mult_le_mono1)
  then show ?thesis using assms(3) by simp
next
  case False
  then show ?thesis using assms by (simp add: lexlt_def)
qed

theorem call_card_total:
  assumes wf: "wf_store G"
  shows "x < length G \<Longrightarrow> 0 \<le> n \<Longrightarrow> \<exists>F. \<forall>f\<ge>F. cok G f n x"
proof (induction "nat n * length G + x" arbitrary: n x rule: less_induct)
  case less
  note x = less.prems(1) and n = less.prems(2)
  let ?A = "{(m, e). 0 \<le> m \<and> m \<le> n \<and> e < length G \<and> lexlt m e n x}"
  have "?A \<subseteq> {0..n} \<times> {..<length G}" by auto
  then have fin: "finite ?A" by (rule finite_subset) simp
  have ih: "\<exists>F. \<forall>f\<ge>F. cok G f (fst a) (snd a)" if "a \<in> ?A" for a
  proof -
    obtain m e where a: "a = (m, e)" by (cases a)
    have "nat m * length G + e < nat n * length G + x"
      using that a x by (intro lex_measure) auto
    from less.hyps [OF this] that a show ?thesis by simp
  qed
  have "\<exists>F. \<forall>a\<in>?A. \<forall>f\<ge>F. cok G f (fst a) (snd a)"
    using fin ih by (rule common_fuel [where P = "\<lambda>a f. cok G f (fst a) (snd a)"])
  then obtain F0 where F0: "\<forall>a\<in>?A. \<forall>f\<ge>F0. cok G f (fst a) (snd a)" ..
  show ?case
  proof (intro exI [of _ "Suc (max F0 (nat n + 2))"] allI impI)
    fix f assume "Suc (max F0 (nat n + 2)) \<le> f"
    then obtain f' where f: "f = Suc f'" and f1: "F0 \<le> f'" and f2: "nat n + 1 < f'"
      by (cases f) auto
    have spec: "cspec G (call_card f') n x"
      unfolding cspec_def
    proof (intro allI impI)
      fix s e m
      assume s: "st G {} m e s" and m: "0 \<le> m" and e: "e < length G" and lt: "lexlt m e n x"
      have "(m, e) \<in> ?A" using m e lt by (auto simp: lexlt_def)
      then have "cok G f' m e" using F0 f1 by fastforce
      then show "\<exists>s'. call_card f' s e m = ret (scard G e m) s' \<and> rel {} m e s s' \<and> goodS G s'"
        using s unfolding cok_def by blast
    qed
    show "cok G f n x"
      unfolding cok_def f
    proof (intro allI impI)
      fix s assume s: "st G {} n x s"
      from card_body_ok [OF spec wf x n s f2]
      show "\<exists>s'. call_card (Suc f') s x n = ret (scard G x n) s' \<and> rel {} n x s s' \<and>
          goodS G s' \<and> cached (s' ! x) n"
        by simp
    qed
  qed
qed

lemma good_obj_shape:
  "map erase s = map erase G \<Longrightarrow> good_obj s q ob = good_obj G q ob"
proof -
  assume "map erase s = map erase G"
  then have "scard s = scard G" by (intro ext) (rule scard_shape)
  then show ?thesis by (cases ob) simp_all
qed

lemma consistent_reach: "consistent s \<Longrightarrow> reach s s"
  by (simp add: consistent_def reach_def goodS_def)

lemma reach_st: "reach G s \<Longrightarrow> st G {} n x s"
  by (simp add: reach_def goodS_def st_def)

lemma reach_after: "reach G s \<Longrightarrow> rel {} n x s s' \<Longrightarrow> goodS G s' \<Longrightarrow> reach G s'"
  by (simp add: reach_def rel_def)

lemma reach_length: "reach G s \<Longrightarrow> length s = length G"
  by (metis reach_def goodS_def length_map)

lemma reach_consistent: "wf_store G \<Longrightarrow> reach G s \<Longrightarrow> consistent s"
proof -
  assume wf: "wf_store G" and r: "reach G s"
  then have e: "map erase s = map erase G" by (simp add: reach_def goodS_def)
  then have "wf_store s" using wf wf_store_erase by metis
  then show ?thesis using r good_obj_shape [OF e] by (simp add: consistent_def reach_def goodS_def)
qed

lemma rel_grows: "rel X n x s s' \<Longrightarrow> grows s s'"
  by (simp add: rel_def grows_def)

lemma fresh_consistent: "wf_store s \<Longrightarrow> map erase s = s \<Longrightarrow> consistent s"
  unfolding consistent_def
proof (intro conjI allI impI)
  fix q assume "map erase s = s" "q < length s"
  then have "erase (s ! q) = s ! q" by (metis nth_map)
  then show "good_obj s q (s ! q)" "tidy (s ! q)"
    by (cases "s ! q"; auto)+
qed

text \<open>What \<open>x.card(n)\<close> does from a state of the shape \<open>G\<close> whose tables are right.\<close>

lemma cokD:
  assumes "cok G f n x" "reach G s"
  obtains s' where "call_card f s x n = ret (scard G x n) s'" "reach G s'" "grows s s'"
    "cached (s' ! x) n"
proof -
  from assms obtain s' where 1: "call_card f s x n = ret (scard G x n) s'"
    and 2: "rel {} n x s s'" and 3: "goodS G s'" and 4: "cached (s' ! x) n"
    unfolding cok_def using reach_st by blast
  show thesis using that [OF 1 reach_after [OF assms(2) 2 3] rel_grows [OF 2] 4] .
qed

theorem card_correct:
  assumes "consistent s" "x < length s" "0 \<le> n"
  shows "\<exists>F. \<forall>f\<ge>F. \<exists>s'. call_card f s x n = ret (scard s x n) s' \<and> consistent s' \<and> grows s s'"
proof -
  have wf: "wf_store s" using assms(1) by (simp add: consistent_def)
  from call_card_total [OF wf assms(2,3)] obtain F where F: "\<forall>f\<ge>F. cok s f n x" by blast
  show ?thesis
  proof (intro exI [of _ F] allI impI)
    fix f assume "F \<le> f"
    then have "cok s f n x" using F by simp
    from cokD [OF this consistent_reach [OF assms(1)]]
    obtain s' where "call_card f s x n = ret (scard s x n) s'" "reach s s'" "grows s s'"
      by blast
    then show "\<exists>s'. call_card f s x n = ret (scard s x n) s' \<and> consistent s' \<and> grows s s'"
      using reach_consistent [OF wf] by blast
  qed
qed

text \<open>A size already in the table is answered from the table and the store stays as it is.\<close>

lemma card_cached:
  assumes wf: "wf_store G" and r: "reach G s" and x: "x < length G" and n: "0 \<le> n"
    and c: "cached (s ! x) n"
    and memo: "(\<exists>cons cards. s ! x = Enum cons cards) \<or> (\<exists>con enums nxt cs. s ! x = Constructor con enums nxt cs)"
  shows "call_card (Suc (Suc f)) s x n = ret (scard G x n) s"
proof -
  have xl: "x < length s" using r x by (simp add: reach_length)
  have u: "st G {} n x s" using r by (rule reach_st)
  have er: "erase (s ! x) = erase (G ! x)" using u x by (rule st_erase)
  from memo show ?thesis
  proof (elim disjE exE)
    fix cons cards assume sx: "s ! x = Enum cons cards"
    then obtain cards0 where Gx: "G ! x = Enum cons cards0"
      using er by (cases "G ! x") auto
    from st_shape_Enum [OF u x Gx] sx
    have val: "\<And>m. 0 < m \<Longrightarrow> m < length cards \<Longrightarrow> cards ! m = scard G x (int m)"
      by auto
    show ?thesis
    proof (cases "n \<le> 0")
      case True
      then show ?thesis using xl sx scard_Enum [OF x Gx, of n]
        by (simp add: card_body_def Enum_card_def)
    next
      case False
      then have "n < int (length cards)" using c sx by simp
      moreover from this have "cards ! nat n = scard G x n" using val [of "nat n"] False by simp
      ultimately show ?thesis using xl sx False
        by (simp add: card_body_def Enum_card_def)
    qed
  next
    fix con enums nxt cs assume sx: "s ! x = Constructor con enums nxt cs"
    then obtain nxt0 cs0 where Gx: "G ! x = Constructor con enums nxt0 cs0"
      using er by (cases "G ! x") auto
    have wfx: "\<forall>e\<in>set enums. e < x" and ne: "enums \<noteq> []"
      using wf x Gx by (auto simp: wf_store_def)
    have good: "good_obj G x (Constructor con enums nxt cs)"
      using st_good [OF u x] sx by simp
    have k0: "0 < length enums" using ne by simp
    have lcs: "length cs = length enums" using good by simp
    have r0: "nxt \<le> int (length (cs ! 0))" using good k0 by simp
    have v0: "\<forall>m<length (cs ! 0). cs ! 0 ! m = prodcard (scard G) (drop 0 enums) (int m)"
      using good k0 by simp
    have nn: "n < nxt" using c sx by simp
    then have nl: "n < int (length (cs ! 0))" using r0 by simp
    then have "nat n < length (cs ! 0)" using n by simp
    then have "cs ! 0 ! nat n = prodcard (scard G) enums n" using v0 n by simp
    moreover have "scard G x n = prodcard (scard G) enums n"
      using x Gx wfx n by (rule scard_Constructor)
    moreover have "cs \<noteq> []" using lcs ne by auto
    ultimately have "self_cs_at s x 0 n = Inr (scard G x n)"
      using self_cs_at_0 [OF xl sx, of n] n nl by simp
    then show ?thesis using xl sx nn
      by (simp add: card_body_def Constructor_card_def Constructor_expand_def)
  qed
qed

lemma cached_le: "cached ob n \<Longrightarrow> m \<le> n \<Longrightarrow> cached ob m"
  by (cases ob) auto

lemma obj_le_memo:
  "obj_le a b \<Longrightarrow>
   (\<exists>cons cards. a = Enum cons cards) \<or> (\<exists>con enums nxt cs. a = Constructor con enums nxt cs) \<Longrightarrow>
   (\<exists>cons cards. b = Enum cons cards) \<or> (\<exists>con enums nxt cs. b = Constructor con enums nxt cs)"
  by (cases a) auto

lemma nat_lists_eq:
  "nat_lists = (1, [IntEnum, Enum [2, 3] [0], Nullary nil, Constructor app [0, 1] 0 [[], []]])"
  by (simp add: nat_lists_def elist_def alloc_def Enum_init_def addcon_def Constructor_init_def)

lemma nat_lists_consistent: "consistent (snd nat_lists)"
  by (rule fresh_consistent) (simp_all add: nat_lists_eq wf_store_def less_Suc_eq numeral_eq_Suc)

lemma outcome_ret [simp]: "outcome (ret v s) = Some (Inr v)"
  by (simp add: outcome_def ret_def)

text \<open>
  C2, as stated: for every \<open>Enum\<close>, \<open>card(n)\<close> is the sum of what the children return
  for \<open>card(n - 1)\<close>. \<open>addcon\<close> resets the table of the \<open>Enum\<close> it is called on and
  no other: after \<open>outer = Enum(); inner = Enum(); outer.addcon(inner); outer.card(3)\<close>
  and then \<open>inner.addcon(Constructor(lambda: [], []))\<close>, \<open>outer.card(3)\<close> is answered
  from the table of \<open>outer\<close> and is 0, as before, while \<open>inner.card(2)\<close> is 1.
\<close>

theorem Enum_card_stale_counterexample:
  "outcome
     (let (outer, s) = alloc [] Enum_init;
          (inner, s) = alloc s Enum_init;
          s = addcon s outer inner
      in bind (call_card 9 s outer 3) (\<lambda>u s.
           let (c, s) = alloc s (Constructor_init nil []);
               s = addcon s inner c
           in bind (call_card 9 s outer 3) (\<lambda>v s.
              bind (call_card 9 s inner 2) (\<lambda>w s. ret (u, v, w) s))))
   = Some (Inr (0, 0, 1))"
  by code_simp

text \<open>
  C2, amended: for an \<open>Enum\<close> with the children \<open>cons\<close>, in a consistent store (the
  tables hold what \<open>card\<close> is to return: every store after a build phase, no \<open>addcon\<close>
  coming after a \<open>card\<close> or \<open>index\<close>), \<open>card(n)\<close> returns 0 for \<open>n \<le> 0\<close>, and for
  \<open>n > 0\<close> the sum of what the children return for \<open>card(n - 1)\<close>, called one by one on
  the store that \<open>card(n)\<close> left.
\<close>

theorem Enum_card_sum_of_children:
  assumes "consistent s" "x < length s" "s ! x = Enum cons cards"
  shows "\<exists>F. \<forall>f\<ge>F. \<exists>v s'. call_card f s x n = ret v s' \<and>
      (n \<le> 0 \<longrightarrow> v = 0) \<and>
      (0 < n \<longrightarrow> (\<exists>vs. map (\<lambda>c. outcome (call_card f s' c (n - 1))) cons = map (\<lambda>w. Some (Inr w)) vs \<and>
                       v = sum_list vs))"
proof (cases "n \<le> 0")
  case True
  show ?thesis
  proof (rule exI [of _ 1], intro allI impI)
    fix f :: nat assume "1 \<le> f"
    then obtain f' where "f = Suc f'" by (cases f) auto
    then have "call_card f s x n = ret 0 s"
      using True assms by (simp add: card_body_def Enum_card_def)
    then show "\<exists>v s'. call_card f s x n = ret v s' \<and> (n \<le> 0 \<longrightarrow> v = 0) \<and>
      (0 < n \<longrightarrow> (\<exists>vs. map (\<lambda>c. outcome (call_card f s' c (n - 1))) cons = map (\<lambda>w. Some (Inr w)) vs \<and>
                       v = sum_list vs))"
      using True by auto
  qed
next
  case False
  have wf: "wf_store s" using assms(1) by (simp add: consistent_def)
  have cons: "\<forall>c\<in>set cons. c < length s" using wf assms(2,3) by (auto simp: wf_store_def)
  from call_card_total [OF wf assms(2), of n] False
  obtain F1 where F1: "\<forall>f\<ge>F1. cok s f n x" by auto
  have "\<exists>F. \<forall>c\<in>set cons. \<forall>f\<ge>F. cok s f (n - 1) c"
  proof (rule common_fuel [where P = "\<lambda>c f. cok s f (n - 1) c"])
    show "finite (set cons)" by simp
    show "\<exists>F. \<forall>f\<ge>F. cok s f (n - 1) c" if "c \<in> set cons" for c
      using call_card_total [OF wf, of c "n - 1"] cons that False by simp
  qed
  then obtain F2 where F2: "\<forall>c\<in>set cons. \<forall>f\<ge>F2. cok s f (n - 1) c" ..
  show ?thesis
  proof (rule exI [of _ "max F1 F2"], intro allI impI)
    fix f assume f: "max F1 F2 \<le> f"
    then have "cok s f n x" using F1 by simp
    from cokD [OF this consistent_reach [OF assms(1)]]
    obtain s' where 1: "call_card f s x n = ret (scard s x n) s'" and 2: "reach s s'"
      by blast
    let ?vs = "map (\<lambda>c. scard s c (n - 1)) cons"
    have "outcome (call_card f s' c (n - 1)) = Some (Inr (scard s c (n - 1)))" if "c \<in> set cons" for c
    proof -
      have "cok s f (n - 1) c" using F2 f that by simp
      from cokD [OF this 2] show ?thesis by (metis outcome_ret)
    qed
    then have 3: "map (\<lambda>c. outcome (call_card f s' c (n - 1))) cons = map (\<lambda>w. Some (Inr w)) ?vs"
      by simp
    have 4: "scard s x n = sum_list ?vs"
      using scard_Enum [OF assms(2,3), of n] False by simp
    show "\<exists>v s'. call_card f s x n = ret v s' \<and> (n \<le> 0 \<longrightarrow> v = 0) \<and>
      (0 < n \<longrightarrow> (\<exists>vs. map (\<lambda>c. outcome (call_card f s' c (n - 1))) cons = map (\<lambda>w. Some (Inr w)) vs \<and>
                       v = sum_list vs))"
      using 1 3 4 False by blast
  qed
qed

theorem Enum_card_sum_of_children_witness:
  "\<exists>F. \<forall>f\<ge>F. \<exists>v s'. call_card f (snd nat_lists) (fst nat_lists) 3 = ret v s' \<and>
      (\<exists>vs. map (\<lambda>c. outcome (call_card f s' c 2)) [2, 3] = map (\<lambda>w. Some (Inr w)) vs \<and>
             v = sum_list vs)"
  using Enum_card_sum_of_children [OF nat_lists_consistent, of "fst nat_lists" "[2, 3]" "[0]" 3]
  by (simp add: nat_lists_eq)

text \<open>An object with a table: a second call is answered from the table.\<close>

lemma card_memo_stable_table:
  assumes "consistent s" "x < length s"
    and "(\<exists>cons cards. s ! x = Enum cons cards) \<or> (\<exists>con enums nxt cs. s ! x = Constructor con enums nxt cs)"
    and "0 \<le> m" "m \<le> n"
  shows "\<exists>F. \<forall>f\<ge>F. \<exists>v w s1 s2.
      call_card f s x n = ret v s1 \<and> call_card f s1 x n = ret v s1 \<and>
      call_card f s x m = ret w s2 \<and> call_card f s1 x m = ret w s1 \<and>
      grows s s1 \<and> reach s s1"
proof -
  have wf: "wf_store s" using assms(1) by (simp add: consistent_def)
  have n: "0 \<le> n" using assms(4,5) by simp
  from call_card_total [OF wf assms(2) n] obtain F1 where F1: "\<forall>f\<ge>F1. cok s f n x" by blast
  from call_card_total [OF wf assms(2,4)] obtain F2 where F2: "\<forall>f\<ge>F2. cok s f m x" by blast
  show ?thesis
  proof (rule exI [of _ "max 2 (max F1 F2)"], intro allI impI)
    fix f assume f: "max 2 (max F1 F2) \<le> f"
    then obtain f' where ff: "f = Suc (Suc f')" by (cases f; cases "f - 1") auto
    have r: "reach s s" using assms(1) by (rule consistent_reach)
    have "cok s f n x" using F1 f by simp
    from cokD [OF this r]
    obtain s1 where 1: "call_card f s x n = ret (scard s x n) s1" and 2: "reach s s1"
      and 3: "grows s s1" and 4: "cached (s1 ! x) n"
      by blast
    have "cok s f m x" using F2 f by simp
    from cokD [OF this r]
    obtain s2 where 5: "call_card f s x m = ret (scard s x m) s2"
      by blast
    have "obj_le (s ! x) (s1 ! x)" using 3 assms(2) by (simp add: grows_def)
    then have memo: "(\<exists>cons cards. s1 ! x = Enum cons cards) \<or>
        (\<exists>con enums nxt cs. s1 ! x = Constructor con enums nxt cs)"
      using assms(3) by (rule obj_le_memo)
    have 6: "call_card f s1 x n = ret (scard s x n) s1"
      unfolding ff using wf 2 assms(2) n 4 memo by (rule card_cached)
    have 7: "call_card f s1 x m = ret (scard s x m) s1"
      unfolding ff using wf 2 assms(2,4) cached_le [OF 4 assms(5)] memo by (rule card_cached)
    show "\<exists>v w s1 s2. call_card f s x n = ret v s1 \<and> call_card f s1 x n = ret v s1 \<and>
      call_card f s x m = ret w s2 \<and> call_card f s1 x m = ret w s1 \<and> grows s s1 \<and>
      reach s s1"
      using 1 2 3 5 6 7 by blast
  qed
qed

lemma sum_list_upto_flip:
  "(\<Sum>i\<leftarrow>[0..m]. f i (m - i)) = (\<Sum>i\<leftarrow>[0..m]. f (m - i) i)"
  for m :: int and f :: "int \<Rightarrow> int \<Rightarrow> int"
proof -
  have "(\<Sum>i\<leftarrow>[0..m]. f i (m - i)) = (\<Sum>i\<in>{0..m}. f i (m - i))"
    by (simp add: sum_list_distinct_conv_sum_set)
  also have "\<dots> = (\<Sum>i\<in>{0..m}. f (m - i) i)"
    by (rule sum.reindex_bij_witness [where i = "\<lambda>i. m - i" and j = "\<lambda>i. m - i"]) auto
  also have "\<dots> = (\<Sum>i\<leftarrow>[0..m]. f (m - i) i)"
    by (simp add: sum_list_distinct_conv_sum_set)
  finally show ?thesis .
qed

text \<open>
  C3, as stated: for every \<open>Constructor\<close> with at least two components the last row of
  the matrix holds the cardinalities of the last component. The rows are never reset: after
  \<open>e = Enum(); c = Constructor(app, [IntEnum(), e]); c.card(2)\<close> and then
  \<open>e.addcon(Constructor(lambda: [], []))\<close>, \<open>c.cs[1][2]\<close> is 0 while \<open>e.card(2)\<close> is 1,
  and \<open>c.card(2)\<close> returns 0 as before.
\<close>

theorem Constructor_matrix_stale_counterexample:
  "outcome
     (let (e, s) = alloc [] Enum_init;
          (i, s) = alloc s IntEnum;
          (c, s) = alloc s (Constructor_init app [i, e])
      in bind (call_card 9 s c 2) (\<lambda>u s.
           let (k, s) = alloc s (Constructor_init nil []);
               s = addcon s e k
           in bind (lift (self_cs_at s c 1 2) s) (\<lambda>a s.
              bind (call_card 9 s e 2) (\<lambda>w s.
              bind (call_card 9 s c 2) (\<lambda>v s. ret (u, a, w, v) s)))))
   = Some (Inr (0, 0, 1, 0))"
  by code_simp

text \<open>
  C3, amended: for a \<open>Constructor\<close> with at least two components, in a consistent store
  (the tables hold what \<open>card\<close> is to return: every store after a build phase, no
  \<open>addcon\<close> coming after a \<open>card\<close> or \<open>index\<close>), and \<open>n \<ge> 0\<close>: after \<open>card(n)\<close>
  every row of the matrix has \<open>next > n\<close> entries, the last row holds what the last
  component's \<open>card\<close> returns, every other row is the convolution of its component's
  cardinalities with the row below, and the value returned is \<open>cs[0][n]\<close>. \<open>C e i\<close> is
  what \<open>e.card(i)\<close> returns on the store left.
\<close>

theorem Constructor_matrix_convolution:
  assumes "consistent s" "x < length s" "s ! x = Constructor con enums nxt cs"
    and "2 \<le> length enums" "0 \<le> n"
  shows "\<exists>F. \<forall>f\<ge>F. \<exists>v s' nxt' cs' C.
      call_card f s x n = ret v s' \<and> s' ! x = Constructor con enums nxt' cs' \<and> n < nxt' \<and>
      length cs' = length enums \<and> (\<forall>k<length enums. int (length (cs' ! k)) = nxt') \<and>
      (\<forall>e\<in>set enums. \<forall>i. 0 \<le> i \<and> i \<le> n \<longrightarrow> outcome (call_card f s' e i) = Some (Inr (C e i))) \<and>
      (\<forall>m\<le>nat n. cs' ! (length enums - 1) ! m = C (enums ! (length enums - 1)) (int m) \<and>
          (\<forall>k. Suc k < length enums \<longrightarrow>
             cs' ! k ! m = (\<Sum>i\<leftarrow>[0..int m]. C (enums ! k) i * cs' ! Suc k ! nat (int m - i)))) \<and>
      v = cs' ! 0 ! nat n"
proof -
  have wf: "wf_store s" using assms(1) by (simp add: consistent_def)
  have wfx: "\<forall>e\<in>set enums. e < x" and ne: "enums \<noteq> []"
    using wf assms(2,3) by (auto simp: wf_store_def)
  have eG: "\<forall>e\<in>set enums. e < length s" using wfx assms(2) by auto
  from call_card_total [OF wf assms(2,5)] obtain F1 where F1: "\<forall>f\<ge>F1. cok s f n x" by blast
  let ?A = "{0..n} \<times> set enums"
  have "\<exists>F. \<forall>a\<in>?A. \<forall>f\<ge>F. cok s f (fst a) (snd a)"
  proof (rule common_fuel [where P = "\<lambda>a f. cok s f (fst a) (snd a)"])
    show "finite ?A" by simp
    show "\<exists>F. \<forall>f\<ge>F. cok s f (fst a) (snd a)" if "a \<in> ?A" for a
      using call_card_total [OF wf, of "snd a" "fst a"] eG that by auto
  qed
  then obtain F2 where F2: "\<forall>a\<in>?A. \<forall>f\<ge>F2. cok s f (fst a) (snd a)" ..
  show ?thesis
  proof (rule exI [of _ "max F1 F2"], intro allI impI)
    fix f assume f: "max F1 F2 \<le> f"
    then have "cok s f n x" using F1 by simp
    from cokD [OF this consistent_reach [OF assms(1)]]
    obtain s' where 1: "call_card f s x n = ret (scard s x n) s'" and 2: "reach s s'"
      and 4: "cached (s' ! x) n"
      by blast
    have u: "st s {} n x s'" using 2 by (rule reach_st)
    from st_shape_Constructor [OF u assms(2,3)] obtain t cs'
      where sx: "s' ! x = Constructor con enums t cs'"
        and good: "good_obj s x (Constructor con enums t cs')"
      by blast
    have xl: "x < length s'" using 2 assms(2) by (simp add: reach_length)
    have nt: "n < t" using 4 sx by simp
    have lcs: "length cs' = length enums" using good by simp
    have "tidy (s' ! x)" using 2 xl by (simp add: reach_def)
    then have rows: "\<forall>k<length enums. int (length (cs' ! k)) = t"
      using sx lcs by simp
    have val: "cs' ! k ! m = prodcard (scard s) (drop k enums) (int m)"
      if "k < length enums" "int m < t" for k m
    proof -
      have "m < length (cs' ! k)" using rows that by (metis of_nat_less_iff)
      then show ?thesis using good that(1) by simp
    qed
    have comp: "outcome (call_card f s' e i) = Some (Inr (scard s e i))"
      if "e \<in> set enums" "0 \<le> i \<and> i \<le> n" for e i
    proof -
      have "(i, e) \<in> ?A" using that by simp
      then have "cok s f i e" using F2 f by fastforce
      from cokD [OF this 2] show ?thesis by (metis outcome_ret)
    qed
    have last: "cs' ! (length enums - 1) ! m = scard s (enums ! (length enums - 1)) (int m)"
      if "m \<le> nat n" for m
    proof -
      have "int m < t" using that nt assms(5) by simp
      then show ?thesis using val [of "length enums - 1" m] ne prodcard_drop_last [OF ne] by simp
    qed
    have conv: "cs' ! k ! m = (\<Sum>i\<leftarrow>[0..int m]. scard s (enums ! k) i * cs' ! Suc k ! nat (int m - i))"
      if "m \<le> nat n" "Suc k < length enums" for k m
    proof -
      have mt: "int m < t" using that nt assms(5) by simp
      have "cs' ! k ! m = prodcard (scard s) (drop k enums) (int m)"
        using val [of k m] that mt by simp
      also have "\<dots> = (\<Sum>i\<leftarrow>[0..int m]. prodcard (scard s) (drop (Suc k) enums) i * scard s (enums ! k) (int m - i))"
        using that(2) by (rule prodcard_drop)
      also have "\<dots> = (\<Sum>i\<leftarrow>[0..int m]. prodcard (scard s) (drop (Suc k) enums) (int m - i) * scard s (enums ! k) i)"
        by (rule sum_list_upto_flip [where f = "\<lambda>a b. prodcard (scard s) (drop (Suc k) enums) a * scard s (enums ! k) b"])
      also have "\<dots> = (\<Sum>i\<leftarrow>[0..int m]. scard s (enums ! k) i * cs' ! Suc k ! nat (int m - i))"
      proof (rule arg_cong [where f = sum_list], rule map_cong [OF refl])
        fix i assume "i \<in> set [0..int m]"
        then have i: "0 \<le> i" "i \<le> int m" by auto
        then have "int (nat (int m - i)) < t" using mt by simp
        from val [OF that(2) this] i
        show "prodcard (scard s) (drop (Suc k) enums) (int m - i) * scard s (enums ! k) i =
              scard s (enums ! k) i * cs' ! Suc k ! nat (int m - i)"
          by simp
      qed
      finally show ?thesis .
    qed
    have v: "scard s x n = cs' ! 0 ! nat n"
      using val [of 0 "nat n"] ne nt assms(5) scard_Constructor [OF assms(2,3) wfx assms(5)]
      by simp
    have A: "\<forall>e\<in>set enums. \<forall>i. 0 \<le> i \<and> i \<le> n \<longrightarrow>
        outcome (call_card f s' e i) = Some (Inr (scard s e i))"
      using comp by blast
    have B: "\<forall>m\<le>nat n. cs' ! (length enums - 1) ! m = scard s (enums ! (length enums - 1)) (int m) \<and>
          (\<forall>k. Suc k < length enums \<longrightarrow>
             cs' ! k ! m = (\<Sum>i\<leftarrow>[0..int m]. scard s (enums ! k) i * cs' ! Suc k ! nat (int m - i)))"
      using last conv by blast
    show "\<exists>v s' nxt' cs' C.
      call_card f s x n = ret v s' \<and> s' ! x = Constructor con enums nxt' cs' \<and> n < nxt' \<and>
      length cs' = length enums \<and> (\<forall>k<length enums. int (length (cs' ! k)) = nxt') \<and>
      (\<forall>e\<in>set enums. \<forall>i. 0 \<le> i \<and> i \<le> n \<longrightarrow> outcome (call_card f s' e i) = Some (Inr (C e i))) \<and>
      (\<forall>m\<le>nat n. cs' ! (length enums - 1) ! m = C (enums ! (length enums - 1)) (int m) \<and>
          (\<forall>k. Suc k < length enums \<longrightarrow>
             cs' ! k ! m = (\<Sum>i\<leftarrow>[0..int m]. C (enums ! k) i * cs' ! Suc k ! nat (int m - i)))) \<and>
      v = cs' ! 0 ! nat n"
      by (rule exI [of _ "scard s x n"], rule exI [of _ s'], rule exI [of _ t],
          rule exI [of _ cs'], rule exI [of _ "scard s"])
         (intro conjI 1 sx nt lcs rows A B v)
  qed
qed

theorem Constructor_matrix_convolution_witness:
  "\<exists>F. \<forall>f\<ge>F. \<exists>v s' nxt' cs' C.
      call_card f (snd nat_lists) 3 4 = ret v s' \<and> s' ! 3 = Constructor app [0, 1] nxt' cs' \<and> 4 < nxt' \<and>
      length cs' = 2 \<and> (\<forall>k<2. int (length (cs' ! k)) = nxt') \<and>
      (\<forall>e\<in>set [0, 1]. \<forall>i. 0 \<le> i \<and> i \<le> 4 \<longrightarrow> outcome (call_card f s' e i) = Some (Inr (C e i))) \<and>
      (\<forall>m\<le>4. cs' ! 1 ! m = C 1 (int m) \<and>
             cs' ! 0 ! m = (\<Sum>i\<leftarrow>[0..int m]. C 0 i * cs' ! 1 ! nat (int m - i))) \<and>
      v = cs' ! 0 ! 4"
  using Constructor_matrix_convolution [OF nat_lists_consistent, of 3 app "[0, 1]" 0 "[[], []]" 4]
  by (simp add: nat_lists_eq numeral_2_eq_2)

section \<open>Correctness of index\<close>

lemma pick_Some:
  assumes "\<And>c. c \<in> set xs \<Longrightarrow> 0 \<le> B c" "0 \<le> i" "i < (\<Sum>c\<leftarrow>xs. B c)"
  obtains c j where "pick B xs i = Some (c, j)" "c \<in> set xs" "0 \<le> j" "j < B c"
  using assms
proof (induction xs arbitrary: i thesis)
  case Nil
  then show ?case by simp
next
  case (Cons a xs)
  show ?case
  proof (cases "i < B a")
    case True
    then show ?thesis using Cons.prems(1) [of a i] Cons.prems(3) by simp
  next
    case False
    then have 1: "0 \<le> i - B a" "i - B a < (\<Sum>c\<leftarrow>xs. B c)" using Cons.prems(4) by simp_all
    obtain c j where "pick B xs (i - B a) = Some (c, j)" "c \<in> set xs" "0 \<le> j" "j < B c"
      using Cons.IH [OF _ _ 1] Cons.prems(2) by (metis list.set_intros(2))
    then show ?thesis using Cons.prems(1) [of c j] False by simp
  qed
qed

lemma pick_mem: "pick B xs i = Some (c, j) \<Longrightarrow> c \<in> set xs"
  by (induction xs arbitrary: i) (auto split: if_splits)

lemma pick_None: "(\<Sum>c\<leftarrow>xs. B c) \<le> i \<Longrightarrow> (\<And>c. c \<in> set xs \<Longrightarrow> 0 \<le> B c) \<Longrightarrow> pick B xs i = None"
proof (induction xs arbitrary: i)
  case Nil
  then show ?case by simp
next
  case (Cons a xs)
  have "0 \<le> (\<Sum>c\<leftarrow>xs. B c)" using Cons.prems(2) by (auto intro!: sum_list_nonneg)
  then have "\<not> i < B a" using Cons.prems(1) by simp
  moreover have "pick B xs (i - B a) = None"
    using Cons.prems by (intro Cons.IH) auto
  ultimately show ?case by simp
qed

lemma proddecode_cong:
  "0 \<le> n \<Longrightarrow> (\<And>e m j. e \<in> set es \<Longrightarrow> 0 \<le> m \<Longrightarrow> m \<le> n \<Longrightarrow> D e m j = D' e m j) \<Longrightarrow>
   proddecode C D es n i = proddecode C D' es n i"
proof (induction C D es n i rule: proddecode.induct)
  case (3 C D e e' es n i)
  show ?case
  proof (cases "pick (\<lambda>sz. C e sz * prodcard C (e' # es) (n - sz)) [0..n] i")
    case None
    then show ?thesis by simp
  next
    case (Some a)
    obtain sz j where a: "a = (sz, j)" by (cases a)
    have sz: "0 \<le> sz" "sz \<le> n" using pick_mem [OF Some [unfolded a]] by auto
    have 1: "D e sz (j mod C e sz) = D' e sz (j mod C e sz)" using "3.prems" sz by simp
    have 2: "proddecode C D (e' # es) (n - sz) (j div C e sz) =
             proddecode C D' (e' # es) (n - sz) (j div C e sz)"
      using Some a sz "3.prems" by (intro "3.IH") auto
    show ?thesis using Some a 1 2 by simp
  qed
qed auto

lemma sindex_IntEnum: "x < length G \<Longrightarrow> G ! x = IntEnum \<Longrightarrow> sindex G x n i = Inr (VInt n)"
  by (simp add: sindex.simps)

lemma sindex_Nullary: "x < length G \<Longrightarrow> G ! x = Nullary con \<Longrightarrow> sindex G x n i = con []"
  by (simp add: sindex.simps)

lemma sindex_Unary:
  "x < length G \<Longrightarrow> G ! x = Unary con [e] \<Longrightarrow> e < x \<Longrightarrow>
   sindex G x n i = bindE (sindex G e n i) (\<lambda>v. con [v])"
  by (simp add: sindex.simps [of G x n i])

lemma sindex_Enum:
  "x < length G \<Longrightarrow> G ! x = Enum cons cards \<Longrightarrow> 0 < n \<Longrightarrow>
   sindex G x n i = (case pick (\<lambda>c. scard G c (n - 1)) cons i of
                       None \<Rightarrow> Inl ValueError
                     | Some (c, j) \<Rightarrow> sindex G c (n - 1) j)"
  by (simp add: sindex.simps [of G x n i])

lemma sindex_Constructor:
  assumes "x < length G" "G ! x = Constructor con enums nxt cs" "\<forall>e\<in>set enums. e < x" "0 \<le> n"
  shows "sindex G x n i = bindE (proddecode (scard G) (sindex G) enums n i) con"
proof -
  have "proddecode (scard G)
          (\<lambda>e m j. if e < x \<and> 0 \<le> m \<and> m \<le> n then sindex G e m j else Inl BadReference) enums n i =
        proddecode (scard G) (sindex G) enums n i"
    using assms by (intro proddecode_cong) auto
  then show ?thesis using assms by (simp add: sindex.simps [of G x n i])
qed

lemma grows_refl [simp]: "grows s s"
  by (simp add: grows_def)

lemma grows_trans: "grows s t \<Longrightarrow> grows t u \<Longrightarrow> grows s u"
  by (auto simp: grows_def intro: obj_le_trans)

lemma iresult_grows: "iresult G r t sem \<Longrightarrow> grows s t \<Longrightarrow> iresult G r s sem"
  by (auto simp: iresult_def split: sum.splits intro: grows_trans)

lemma iresult_Inl [simp]: "iresult G r s (Inl err) \<longleftrightarrow> r = raise err"
  by (simp add: iresult_def)

lemma iresult_Inr: "iresult G r s (Inr v) \<longleftrightarrow> (\<exists>s'. r = ret v s' \<and> reach G s' \<and> grows s s')"
  by (simp add: iresult_def)

text \<open>A \<open>card\<close> callee from a state whose tables are right and complete.\<close>

lemma ccall:
  assumes "cspec G crec n x" "reach G s" "0 \<le> m" "e < length G" "lexlt m e n x"
  obtains s' where "crec s e m = ret (scard G e m) s'" "reach G s'" "grows s s'"
proof -
  from cspecD [OF assms(1) reach_st [OF assms(2)] assms(3,4,5)]
  obtain s' where 1: "crec s e m = ret (scard G e m) s'" and 2: "rel {} m e s s'" and 3: "goodS G s'"
    by blast
  show thesis using that [OF 1 reach_after [OF assms(2) 2 3] rel_grows [OF 2]] .
qed

lemma icall:
  assumes "ispec G irec n x" "reach G s" "0 \<le> m" "e < length G" "lexlt m e n x"
    "0 \<le> j" "j < scard G e m"
  shows "iresult G (irec s e m j) s (sindex G e m j)"
  using assms unfolding ispec_def by blast

lemma Enum_index_loop_ok:
  assumes csp: "cspec G crec n x" and isp: "ispec G irec n x" and n: "0 < n"
  shows "reach G s \<Longrightarrow> \<forall>c\<in>set cons. c < length G \<Longrightarrow> 0 \<le> i \<Longrightarrow>
     i < (\<Sum>c\<leftarrow>cons. scard G c (n - 1)) \<Longrightarrow>
     iresult G (Enum_index_loop crec irec cons n i s) s
       (case pick (\<lambda>c. scard G c (n - 1)) cons i of
          None \<Rightarrow> Inl ValueError | Some (c, j) \<Rightarrow> sindex G c (n - 1) j)"
proof (induction cons arbitrary: i s)
  case Nil
  then show ?case by simp
next
  case (Cons a cons)
  have lt: "lexlt (n - 1) a n x" by (simp add: lexlt_def)
  from ccall [OF csp Cons.prems(1) _ _ lt] n Cons.prems(2)
  obtain s1 where 1: "crec s a (n - 1) = ret (scard G a (n - 1)) s1"
    and 2: "reach G s1" and 3: "grows s s1"
    by auto
  show ?case
  proof (cases "i < scard G a (n - 1)")
    case True
    have "iresult G (irec s1 a (n - 1) i) s1 (sindex G a (n - 1) i)"
      using isp 2 _ _ lt Cons.prems(3) True by (rule icall) (use n Cons.prems(2) in auto)
    then show ?thesis using 1 3 True by (simp add: iresult_grows)
  next
    case False
    have "iresult G (Enum_index_loop crec irec cons n (i - scard G a (n - 1)) s1) s1
       (case pick (\<lambda>c. scard G c (n - 1)) cons (i - scard G a (n - 1)) of
          None \<Rightarrow> Inl ValueError | Some (c, j) \<Rightarrow> sindex G c (n - 1) j)"
      using 2 Cons.prems False by (intro Cons.IH) auto
    then show ?thesis using 1 3 False by (simp add: iresult_grows)
  qed
qed

text \<open>An index at or beyond the cardinality runs past every child.\<close>

lemma Enum_index_loop_out_of_bounds:
  assumes csp: "cspec G crec n x" and n: "0 < n"
  shows "reach G s \<Longrightarrow> \<forall>c\<in>set cons. c < length G \<Longrightarrow>
     (\<Sum>c\<leftarrow>cons. scard G c (n - 1)) \<le> i \<Longrightarrow>
     Enum_index_loop crec irec cons n i s = raise ValueError"
proof (induction cons arbitrary: i s)
  case Nil
  then show ?case by simp
next
  case (Cons a cons)
  have lt: "lexlt (n - 1) a n x" by (simp add: lexlt_def)
  from ccall [OF csp Cons.prems(1) _ _ lt] n Cons.prems(2)
  obtain s1 where 1: "crec s a (n - 1) = ret (scard G a (n - 1)) s1"
    and 2: "reach G s1"
    by auto
  have "0 \<le> (\<Sum>c\<leftarrow>cons. scard G c (n - 1))" by (auto intro!: sum_list_nonneg scard_nonneg)
  then have 3: "\<not> i < scard G a (n - 1)" using Cons.prems(3) by simp
  have "Enum_index_loop crec irec cons n (i - scard G a (n - 1)) s1 = raise ValueError"
    using 2 Cons.prems by (intro Cons.IH) auto
  then show ?case using 1 3 by simp
qed

lemma expanded_grows:
  "expanded s x con enums n \<Longrightarrow> grows s s' \<Longrightarrow> x < length s \<Longrightarrow> expanded s' x con enums n"
  by (fastforce simp: expanded_def grows_def)

lemma expanded_reads:
  assumes "expanded s x con enums n" "x < length s"
  shows "self_enums s x = Inr enums" "self_con s x = Inr con"
  using assms by (auto simp: expanded_def)

lemma expanded_row:
  assumes r: "reach G s" and x: "x < length G" and ex: "expanded s x con enums n"
    and k: "Suc k < length enums" and m: "0 \<le> m" "m \<le> n"
  shows "self_cs_at s x (int k + 1) m = Inr (prodcard (scard G) (drop (Suc k) enums) m)"
proof -
  have xl: "x < length s" using r x by (simp add: reach_length)
  from ex obtain t cs where sx: "s ! x = Constructor con enums t cs" and nt: "n < t"
    by (auto simp: expanded_def)
  have good: "good_obj G x (Constructor con enums t cs)"
    using r xl sx by (auto simp: reach_def goodS_def)
  then have lcs: "length cs = length enums" by simp
  have r0: "t \<le> int (length (cs ! Suc k))" using good k by simp
  have v0: "\<forall>j<length (cs ! Suc k). cs ! Suc k ! j = prodcard (scard G) (drop (Suc k) enums) (int j)"
    using good k by simp
  have ml: "m < int (length (cs ! Suc k))" using r0 nt m by simp
  then have "nat m < length (cs ! Suc k)" using m by simp
  then have "cs ! Suc k ! nat m = prodcard (scard G) (drop (Suc k) enums) m" using v0 m by simp
  then show ?thesis using self_cs_at_Suc [OF xl sx, of k m] k lcs m ml by simp
qed

lemma index_search_ok:
  assumes csp: "cspec G crec n0 x" and x: "x < length G" and e: "e < x"
    and k: "Suc k < length enums" and n: "0 \<le> n" "n \<le> n0"
    and blk: "blk = (\<lambda>sz. scard G e sz * prodcard (scard G) (drop (Suc k) enums) (n - sz))"
  shows "reach G s \<Longrightarrow> expanded s x con enums n0 \<Longrightarrow> 0 \<le> esize \<Longrightarrow> esize \<le> n \<Longrightarrow> c = blk esize \<Longrightarrow>
     i < (\<Sum>sz\<leftarrow>[esize..n]. blk sz) \<Longrightarrow> nat (n - esize) < j \<Longrightarrow>
     \<exists>s' sz i'. index_search j crec x e (int k) n i esize c s = ret (i', sz) s' \<and>
        pick blk [esize..n] i = Some (sz, i') \<and> reach G s' \<and> grows s s'"
proof (induction j arbitrary: i esize c s)
  case 0
  then show ?case by simp
next
  case (Suc j)
  note r = Suc.prems(1) and ex = Suc.prems(2) and es = Suc.prems(3,4) and c = Suc.prems(5)
  have up: "[esize..n] = esize # [esize + 1..n]" using es by (simp add: upto_rec1)
  show ?case
  proof (cases "c \<le> i")
    case False
    then show ?thesis using r c up
      by (intro exI [of _ s] exI [of _ esize] exI [of _ i]) simp
  next
    case True
    have "esize \<noteq> n"
    proof
      assume "esize = n"
      then have "(\<Sum>sz\<leftarrow>[esize..n]. blk sz) = blk esize" by simp
      then show False using Suc.prems(6) True c by simp
    qed
    then have lt: "esize < n" using es by simp
    have eG: "e < length G" using e x by simp
    have ll: "lexlt (esize + 1) e n0 x" using lt n e by (auto simp: lexlt_def)
    from ccall [OF csp r _ eG ll] es
    obtain s1 where 1: "crec s e (esize + 1) = ret (scard G e (esize + 1)) s1"
      and 2: "reach G s1" and 3: "grows s s1"
      by auto
    have xl: "x < length s" using r x by (simp add: reach_length)
    have ex1: "expanded s1 x con enums n0" using ex 3 xl by (rule expanded_grows)
    have b: "self_cs_at s1 x (int k + 1) (n - (esize + 1)) =
        Inr (prodcard (scard G) (drop (Suc k) enums) (n - (esize + 1)))"
      using 2 x ex1 k by (rule expanded_row) (use lt n es in auto)
    have i': "i - c < (\<Sum>sz\<leftarrow>[esize + 1..n]. blk sz)"
      using Suc.prems(6) c unfolding up by simp
    have "nat (n - (esize + 1)) < j" using Suc.prems(7) lt by simp
    from Suc.IH [OF 2 ex1 _ _ _ i' this, of "blk (esize + 1)"] es lt
    obtain s' sz i'' where 4: "index_search j crec x e (int k) n (i - c) (esize + 1) (blk (esize + 1)) s1 =
          ret (i'', sz) s'"
      and 5: "pick blk [esize + 1..n] (i - c) = Some (sz, i'')" and 6: "reach G s'" and 7: "grows s1 s'"
      by auto
    have 8: "pick blk [esize..n] i = Some (sz, i'')"
      unfolding up using 5 True c by simp
    have 9: "scard G e (esize + 1) * prodcard (scard G) (drop (Suc k) enums) (n - (esize + 1)) =
          blk (esize + 1)"
      by (simp add: blk)
    show ?thesis using True 1 b 4 9 8 6 grows_trans [OF 3 7]
      by (intro exI [of _ s'] exI [of _ sz] exI [of _ i'']) simp
  qed
qed

lemma int_div_less:
  fixes i d P :: int
  assumes "0 < d" "i < d * P"
  shows "i div d < P"
proof (rule ccontr)
  assume "\<not> i div d < P"
  then have "P \<le> i div d" by simp
  then have "d * P \<le> d * (i div d)" using assms(1) by (simp add: mult_left_mono)
  moreover have "d * (i div d) + i mod d = i" by simp
  moreover have "0 \<le> i mod d" using assms(1) by simp
  ultimately show False using assms(2) by linarith
qed

lemma bind_assoc: "bind (bind m f) g = bind m (\<lambda>v s. bind (f v s) g)"
  by (auto simp: bind_def split: option.splits sum.splits)

lemma bindE_assoc: "bindE (bindE m f) g = bindE m (\<lambda>v. bindE (f v) g)"
  by (auto simp: bindE_def split: sum.splits)

lemma upto_int_Cons: "Suc k < K \<Longrightarrow> [int k..int K - 2] = int k # [int (Suc k)..int K - 2]"
  by (simp add: upto_rec1 add.commute)

lemma upto_int_Nil: "Suc k = K \<Longrightarrow> [int k..int K - 2] = []"
  by auto

lemma blocks_sum:
  "Suc k < length es \<Longrightarrow>
   (\<Sum>sz\<leftarrow>[0..n]. C (es ! k) sz * prodcard C (drop (Suc k) es) (n - sz)) = prodcard C (drop k es) n"
proof -
  assume k: "Suc k < length es"
  have "prodcard C (drop k es) n =
      (\<Sum>i\<leftarrow>[0..n]. prodcard C (drop (Suc k) es) i * C (es ! k) (n - i))"
    using k by (rule prodcard_drop)
  also have "\<dots> = (\<Sum>i\<leftarrow>[0..n]. prodcard C (drop (Suc k) es) (n - i) * C (es ! k) i)"
    by (rule sum_list_upto_flip [where f = "\<lambda>a b. prodcard C (drop (Suc k) es) a * C (es ! k) b"])
  finally show ?thesis by (simp add: mult.commute)
qed

lemma proddecode_drop:
  "Suc k < length es \<Longrightarrow>
   proddecode C D (drop k es) n i =
     (case pick (\<lambda>sz. C (es ! k) sz * prodcard C (drop (Suc k) es) (n - sz)) [0..n] i of
        None \<Rightarrow> Inl ValueError
      | Some (sz, j) \<Rightarrow>
          bindE (D (es ! k) sz (j mod C (es ! k) sz)) (\<lambda>v.
          bindE (proddecode C D (drop (Suc k) es) (n - sz) (j div C (es ! k) sz)) (\<lambda>vs. Inr (v # vs))))"
proof -
  assume k: "Suc k < length es"
  then obtain e' es' where d: "drop (Suc k) es = e' # es'"
    by (cases "drop (Suc k) es") auto
  have "drop k es = es ! k # drop (Suc k) es" using k by (simp add: Cons_nth_drop_Suc)
  then show ?thesis unfolding d by simp
qed

lemma index_final_ok:
  assumes isp: "ispec G irec n0 x" and x: "x < length G" and wfx: "\<forall>e\<in>set enums. e < x"
    and ne: "enums \<noteq> []"
    and r: "reach G s" and ex: "expanded s x con enums n0"
    and n: "0 \<le> n" "n \<le> n0" and i: "0 \<le> i" "i < scard G (enums ! (length enums - 1)) n"
  shows "iresult G (index_final irec x (n, i, args) s) s
     (bindE (sindex G (enums ! (length enums - 1)) n i) (\<lambda>v. con (args @ [v])))"
proof -
  let ?e = "enums ! (length enums - 1)"
  have xl: "x < length s" using r x by (simp add: reach_length)
  have e: "?e < x" using wfx ne by simp
  have eG: "?e < length G" using e x by simp
  have lt: "lexlt n ?e n0 x" using n e by (auto simp: lexlt_def)
  have ir: "iresult G (irec s ?e n i) s (sindex G ?e n i)"
    using isp r n(1) eG lt i by (rule icall)
  have rd: "self_enums s x = Inr enums" using expanded_reads [OF ex xl] by simp
  show ?thesis
  proof (cases "sindex G ?e n i")
    case (Inl err)
    then show ?thesis using ir rd ne by (simp add: index_final_def)
  next
    case (Inr v)
    then obtain s' where 1: "irec s ?e n i = ret v s'" and 2: "reach G s'" and 3: "grows s s'"
      using ir by (auto simp: iresult_Inr)
    have xl': "x < length s'" using 2 x by (simp add: reach_length)
    have "expanded s' x con enums n0" using ex 3 xl by (rule expanded_grows)
    then have rc: "self_con s' x = Inr con" using expanded_reads xl' by blast
    show ?thesis
    proof (cases "con (args @ [v])")
      case (Inl err)
      then show ?thesis using Inr 1 rd rc ne by (simp add: index_final_def)
    next
      case (Inr w)
      then show ?thesis using \<open>sindex G ?e n i = Inr v\<close> 1 2 3 rd rc ne
        by (simp add: index_final_def iresult_Inr)
    qed
  qed
qed

lemma index_args_ok:
  assumes csp: "cspec G crec n0 x" and isp: "ispec G irec n0 x" and x: "x < length G"
    and wfx: "\<forall>e\<in>set enums. e < x" and j: "nat n0 < j"
  shows "reach G s \<Longrightarrow> expanded s x con enums n0 \<Longrightarrow> k0 < length enums \<Longrightarrow>
     length enums - 1 - k0 = d \<Longrightarrow> 0 \<le> n \<Longrightarrow> n \<le> n0 \<Longrightarrow> 0 \<le> i \<Longrightarrow>
     i < prodcard (scard G) (drop k0 enums) n \<Longrightarrow>
     iresult G (bind (index_args j crec irec x [int k0..int (length enums) - 2] n i args s)
                  (index_final irec x)) s
       (bindE (proddecode (scard G) (sindex G) (drop k0 enums) n i) (\<lambda>vs. con (args @ vs)))"
proof (induction d arbitrary: k0 n i args s)
  case 0
  then have k: "Suc k0 = length enums" by simp
  then have ne: "enums \<noteq> []" and k0: "k0 = length enums - 1" by auto
  have dr: "drop k0 enums = [enums ! (length enums - 1)]"
    using k k0 by (metis Cons_nth_drop_Suc "0.prems"(3) drop_all order_refl)
  have i: "i < scard G (enums ! (length enums - 1)) n" using "0.prems"(8) dr by simp
  have "iresult G (index_final irec x (n, i, args) s) s
     (bindE (sindex G (enums ! (length enums - 1)) n i) (\<lambda>v. con (args @ [v])))"
    using isp x wfx ne "0.prems"(1,2,5,6,7) i by (rule index_final_ok)
  then show ?case unfolding dr upto_int_Nil [OF k] by (simp add: bindE_assoc)
next
  case (Suc d)
  note r = Suc.prems(1) and ex = Suc.prems(2) and n = Suc.prems(5,6) and i = Suc.prems(7,8)
  have k: "Suc k0 < length enums" using Suc.prems(3,4) by simp
  let ?e = "enums ! k0"
  let ?P = "prodcard (scard G) (drop (Suc k0) enums)"
  define blk where "blk = (\<lambda>sz. scard G ?e sz * ?P (n - sz))"
  have xl: "x < length s" using r x by (simp add: reach_length)
  have e: "?e < x" using wfx Suc.prems(3) by simp
  have eG: "?e < length G" using e x by simp
  have n0: "0 \<le> n0" using n by simp
  have rd: "self_enums s x = Inr enums" using expanded_reads [OF ex xl] by simp
  have l0: "lexlt 0 ?e n0 x" using n0 e by (auto simp: lexlt_def)
  from ccall [OF csp r _ eG l0]
  obtain s1 where 1: "crec s ?e 0 = ret (scard G ?e 0) s1" and r1: "reach G s1" and g1: "grows s s1"
    by auto
  have ex1: "expanded s1 x con enums n0" using ex g1 xl by (rule expanded_grows)
  have b: "self_cs_at s1 x (int k0 + 1) n = Inr (?P n)"
    using r1 x ex1 k n by (rule expanded_row)
  have bs: "(\<Sum>sz\<leftarrow>[0..n]. blk sz) = prodcard (scard G) (drop k0 enums) n"
    unfolding blk_def using k by (rule blocks_sum)
  have "\<exists>s' sz i'. index_search j crec x ?e (int k0) n i 0 (blk 0) s1 = ret (i', sz) s' \<and>
        pick blk [0..n] i = Some (sz, i') \<and> reach G s' \<and> grows s1 s'"
    using csp x e k n blk_def r1 ex1
  proof (rule index_search_ok)
    show "i < (\<Sum>sz\<leftarrow>[0..n]. blk sz)" using i bs by simp
    show "nat (n - 0) < j" using j n by simp
  qed (use n in simp_all)
  then obtain s2 sz i' where 2: "index_search j crec x ?e (int k0) n i 0 (blk 0) s1 = ret (i', sz) s2"
    and pk: "pick blk [0..n] i = Some (sz, i')" and r2: "reach G s2" and g2: "grows s1 s2"
    by blast
  have nonneg: "0 \<le> blk c" for c
    unfolding blk_def by (intro mult_nonneg_nonneg scard_nonneg prodcard_nonneg)
  obtain c jj where "pick blk [0..n] i = Some (c, jj)" "c \<in> set [0..n]" "0 \<le> jj" "jj < blk c"
    using pick_Some [of "[0..n]" blk i] nonneg i bs by metis
  then have sz: "0 \<le> sz" "sz \<le> n" and i': "0 \<le> i'" "i' < blk sz" using pk by auto
  have lsz: "lexlt sz ?e n0 x" using sz n e by (auto simp: lexlt_def)
  from ccall [OF csp r2 sz(1) eG lsz]
  obtain s3 where 3: "crec s2 ?e sz = ret (scard G ?e sz) s3" and r3: "reach G s3" and g3: "grows s2 s3"
    by auto
  let ?d = "scard G ?e sz"
  have dpos: "0 < ?d"
  proof (rule ccontr)
    assume "\<not> 0 < ?d"
    then have "?d = 0" using scard_nonneg [of G ?e sz] by simp
    then show False using i' by (simp add: blk_def)
  qed
  have im: "0 \<le> i' mod ?d" "i' mod ?d < ?d" using dpos by simp_all
  have ir: "iresult G (irec s3 ?e sz (i' mod ?d)) s3 (sindex G ?e sz (i' mod ?d))"
    using isp r3 sz(1) eG lsz im by (rule icall)
  have g03: "grows s s3" using g1 g2 g3 by (blast intro: grows_trans)
  have step: "bind (index_args j crec irec x [int k0..int (length enums) - 2] n i args s)
                  (index_final irec x) =
      bind (irec s3 ?e sz (i' mod ?d)) (\<lambda>v s.
        bind (index_args j crec irec x [int (Suc k0)..int (length enums) - 2] (n - sz) (i' div ?d)
                (args @ [v]) s) (index_final irec x))"
    unfolding upto_int_Cons [OF k]
    using rd Suc.prems(3) 1 b 2 3 dpos by (simp add: bind_assoc blk_def)
  have sem: "proddecode (scard G) (sindex G) (drop k0 enums) n i =
      bindE (sindex G ?e sz (i' mod ?d)) (\<lambda>v.
        bindE (proddecode (scard G) (sindex G) (drop (Suc k0) enums) (n - sz) (i' div ?d))
          (\<lambda>vs. Inr (v # vs)))"
    using proddecode_drop [OF k, of "scard G" "sindex G" n i] pk by (simp add: blk_def)
  show ?case
  proof (cases "sindex G ?e sz (i' mod ?d)")
    case (Inl err)
    then show ?thesis using ir unfolding step sem by simp
  next
    case (Inr v)
    then obtain s4 where 4: "irec s3 ?e sz (i' mod ?d) = ret v s4" and r4: "reach G s4"
      and g4: "grows s3 s4"
      using ir by (auto simp: iresult_Inr)
    have xl3: "x < length s3" using r3 x by (simp add: reach_length)
    have ex4: "expanded s4 x con enums n0"
      using expanded_grows [OF ex grows_trans [OF g03 g4] xl] .
    have "i' < ?d * ?P (n - sz)" using i' by (simp add: blk_def)
    then have dv: "i' div ?d < ?P (n - sz)" using dpos by (intro int_div_less)
    have dv0: "0 \<le> i' div ?d" using dpos i' by (simp add: pos_imp_zdiv_nonneg_iff)
    have "iresult G (bind (index_args j crec irec x [int (Suc k0)..int (length enums) - 2] (n - sz)
                 (i' div ?d) (args @ [v]) s4) (index_final irec x)) s4
       (bindE (proddecode (scard G) (sindex G) (drop (Suc k0) enums) (n - sz) (i' div ?d))
          (\<lambda>vs. con ((args @ [v]) @ vs)))"
      using r4 ex4 k _ _ _ dv0 dv by (rule Suc.IH) (use Suc.prems(4) sz n in auto)
    then have "iresult G (bind (index_args j crec irec x [int (Suc k0)..int (length enums) - 2] (n - sz)
                 (i' div ?d) (args @ [v]) s4) (index_final irec x)) s
       (bindE (proddecode (scard G) (sindex G) (drop (Suc k0) enums) (n - sz) (i' div ?d))
          (\<lambda>vs. con ((args @ [v]) @ vs)))"
      using grows_trans [OF g03 g4] by (rule iresult_grows)
    then show ?thesis unfolding step sem using Inr 4 by (simp add: bindE_assoc)
  qed
qed

lemma Constructor_index_ok:
  assumes csp: "cspec G crec n x" and isp: "ispec G irec n x" and wf: "wf_store G"
    and x: "x < length G" and Gx: "G ! x = Constructor con enums nxt0 cs0" and n: "0 \<le> n"
    and r: "reach G s" and i: "0 \<le> i" "i < scard G x n" and k: "nat n + 1 < k"
  shows "iresult G (Constructor_index k crec irec x n i s) s (sindex G x n i)"
proof -
  have u: "st G {} n x s" using r by (rule reach_st)
  have xl: "x < length s" using r x by (simp add: reach_length)
  have wfx: "\<forall>e\<in>set enums. e < x" and ne: "enums \<noteq> []"
    using wf x Gx by (auto simp: wf_store_def)
  from st_shape_Constructor [OF u x Gx] obtain t cs
    where ux: "s ! x = Constructor con enums t cs" and good: "good_obj G x (Constructor con enums t cs)"
    by blast
  have "0 \<le> t" using good by simp
  then have "n + 1 - t \<le> int (nat n + 1)" using n by simp
  then have "nat (n + 1 - t) \<le> nat n + 1" by (simp only: nat_le_iff)
  then have "nat (n + 1 - t) < k" using k by simp
  from expand_loop_ok [OF csp wf x Gx u ux this]
  obtain u' t' cs' where 1: "expand_loop k crec x n s = ret () u'"
    and 2: "rel {} n x s u'" and 3: "st G {} n x u'"
    and 4: "u' ! x = Constructor con enums t' cs'" and 5: "n < t'"
    by blast
  have r': "reach G u'" using r 2 st_goodS [OF 3] by (rule reach_after)
  have g: "grows s u'" using 2 by (rule rel_grows)
  have xl': "x < length u'" using r' x by (simp add: reach_length)
  have ex: "expanded u' x con enums n" using 4 5 by (auto simp: expanded_def)
  have sc: "scard G x n = prodcard (scard G) enums n"
    using x Gx wfx n by (rule scard_Constructor)
  have "iresult G (bind (index_args k crec irec x [int 0..int (length enums) - 2] n i [] u')
                  (index_final irec x)) u'
       (bindE (proddecode (scard G) (sindex G) (drop 0 enums) n i) (\<lambda>vs. con ([] @ vs)))"
    using csp isp x wfx _ r' ex _ refl n order_refl i(1)
  proof (rule index_args_ok)
    show "nat n < k" using k by simp
    show "0 < length enums" using ne by simp
    show "i < prodcard (scard G) (drop 0 enums) n" using i sc by simp
  qed
  then have "iresult G (bind (index_args k crec irec x [0..int (length enums) - 2] n i [] u')
                  (index_final irec x)) s (sindex G x n i)"
    using g sindex_Constructor [OF x Gx wfx n, of i] by (simp add: iresult_grows)
  then show ?thesis using 1 4 xl xl' ux
    by (simp add: Constructor_index_def Constructor_expand_def)
qed

lemma Enum_index_ok:
  assumes csp: "cspec G crec n x" and isp: "ispec G irec n x" and wf: "wf_store G"
    and x: "x < length G" and Gx: "G ! x = Enum cons cards0"
    and r: "reach G s" and i: "0 \<le> i" "i < scard G x n"
  shows "iresult G (Enum_index crec irec x n i s) s (sindex G x n i)"
proof -
  have u: "st G {} n x s" using r by (rule reach_st)
  have xl: "x < length s" using r x by (simp add: reach_length)
  from st_shape_Enum [OF u x Gx] obtain cards where ux: "s ! x = Enum cons cards" by blast
  have n: "0 < n" using i scard_Enum [OF x Gx, of n] by (cases "n \<le> 0") auto
  have cl: "\<forall>c\<in>set cons. c < length G" using wf x Gx by (auto simp: wf_store_def)
  have "i < (\<Sum>c\<leftarrow>cons. scard G c (n - 1))" using i n scard_Enum [OF x Gx, of n] by simp
  with csp isp n r cl i(1)
  have "iresult G (Enum_index_loop crec irec cons n i s) s
       (case pick (\<lambda>c. scard G c (n - 1)) cons i of
          None \<Rightarrow> Inl ValueError | Some (c, j) \<Rightarrow> sindex G c (n - 1) j)"
    by (rule Enum_index_loop_ok)
  then show ?thesis using xl ux sindex_Enum [OF x Gx n, of i] by (simp add: Enum_index_def)
qed

lemma iresult_lift: "reach G s \<Longrightarrow> iresult G (lift r s) s r"
  by (cases r) (auto simp: iresult_Inr)

lemma index_body_ok:
  assumes csp: "cspec G crec n x" and isp: "ispec G irec n x" and wf: "wf_store G"
    and x: "x < length G" and n: "0 \<le> n"
    and r: "reach G s" and i: "0 \<le> i" "i < scard G x n" and k: "nat n + 1 < k"
  shows "iresult G (index_body k crec irec s x n i) s (sindex G x n i)"
proof -
  have u: "st G {} n x s" using r by (rule reach_st)
  have xl: "x < length s" using r x by (simp add: reach_length)
  have er: "erase (s ! x) = erase (G ! x)" using u x by (rule st_erase)
  show ?thesis
  proof (cases "G ! x")
    case IntEnum
    then have "s ! x = IntEnum" using er by (simp add: erase_IntEnum)
    then show ?thesis using xl r sindex_IntEnum [OF x IntEnum]
      by (simp add: index_body_def iresult_Inr)
  next
    case (Enum cons cards0)
    then obtain cards where ux: "s ! x = Enum cons cards"
      using st_shape_Enum [OF u x Enum] by blast
    from Enum_index_ok [OF csp isp wf x Enum r i]
    show ?thesis using xl ux by (simp add: index_body_def)
  next
    case (Nullary con)
    then have "s ! x = Nullary con" using er by (simp add: erase_Nullary)
    then show ?thesis using xl r sindex_Nullary [OF x Nullary]
      by (simp add: index_body_def iresult_lift)
  next
    case (Unary con enums)
    then have ux: "s ! x = Unary con enums" using er by (simp add: erase_Unary)
    from wf x Unary obtain e where en: "enums = [e]" and e: "e < x"
      by (cases enums) (auto simp: wf_store_def)
    have G: "G ! x = Unary con [e]" using Unary en by simp
    have eG: "e < length G" using e x by simp
    have lt: "lexlt n e n x" using e by (simp add: lexlt_def)
    have ie: "i < scard G e n" using i scard_Unary [OF x G e] by simp
    have ir: "iresult G (irec s e n i) s (sindex G e n i)"
      using isp r n eG lt i(1) ie by (rule icall)
    have sem: "sindex G x n i = bindE (sindex G e n i) (\<lambda>v. con [v])"
      using x G e by (rule sindex_Unary)
    show ?thesis
    proof (cases "sindex G e n i")
      case (Inl err)
      then show ?thesis using ir xl ux en sem by (simp add: index_body_def)
    next
      case (Inr v)
      then obtain s' where 1: "irec s e n i = ret v s'" and 2: "reach G s'" and 3: "grows s s'"
        using ir by (auto simp: iresult_Inr)
      have "iresult G (lift (con [v]) s') s (con [v])"
        using iresult_lift [OF 2] 3 by (rule iresult_grows)
      then show ?thesis using Inr 1 xl ux en sem by (simp add: index_body_def)
    qed
  next
    case (Constructor con enums nxt0 cs0)
    then obtain t cs where ux: "s ! x = Constructor con enums t cs"
      using st_shape_Constructor [OF u x Constructor] by blast
    from Constructor_index_ok [OF csp isp wf x Constructor n r i k]
    show ?thesis using xl ux by (simp add: index_body_def)
  qed
qed

theorem call_index_total:
  assumes wf: "wf_store G"
  shows "x < length G \<Longrightarrow> 0 \<le> n \<Longrightarrow> \<exists>F. \<forall>f\<ge>F. iok G f n x"
proof (induction "nat n * length G + x" arbitrary: n x rule: less_induct)
  case less
  note x = less.prems(1) and n = less.prems(2)
  let ?A = "{(m, e). 0 \<le> m \<and> m \<le> n \<and> e < length G \<and> lexlt m e n x}"
  have "?A \<subseteq> {0..n} \<times> {..<length G}" by auto
  then have fin: "finite ?A" by (rule finite_subset) simp
  have ih: "\<exists>F. \<forall>f\<ge>F. iok G f (fst a) (snd a) \<and> cok G f (fst a) (snd a)" if "a \<in> ?A" for a
  proof -
    obtain m e where a: "a = (m, e)" by (cases a)
    have "nat m * length G + e < nat n * length G + x"
      using that a x by (intro lex_measure) auto
    have me: "e < length G" "0 \<le> m" using that a by auto
    from less.hyps [OF \<open>nat m * length G + e < nat n * length G + x\<close> me]
    obtain F1 where F1: "\<forall>f\<ge>F1. iok G f m e" by blast
    from call_card_total [OF wf me] obtain F2 where F2: "\<forall>f\<ge>F2. cok G f m e"
      by blast
    show ?thesis using F1 F2 a by (intro exI [of _ "max F1 F2"]) simp
  qed
  have "\<exists>F. \<forall>a\<in>?A. \<forall>f\<ge>F. iok G f (fst a) (snd a) \<and> cok G f (fst a) (snd a)"
    using fin ih
    by (rule common_fuel [where P = "\<lambda>a f. iok G f (fst a) (snd a) \<and> cok G f (fst a) (snd a)"])
  then obtain F0 where F0: "\<forall>a\<in>?A. \<forall>f\<ge>F0. iok G f (fst a) (snd a) \<and> cok G f (fst a) (snd a)" ..
  show ?case
  proof (intro exI [of _ "Suc (max F0 (nat n + 2))"] allI impI)
    fix f assume "Suc (max F0 (nat n + 2)) \<le> f"
    then obtain f' where f: "f = Suc f'" and f1: "F0 \<le> f'" and f2: "nat n + 1 < f'"
      by (cases f) auto
    have csp: "cspec G (call_card f') n x"
      unfolding cspec_def
    proof (intro allI impI)
      fix s e m
      assume s: "st G {} m e s" and m: "0 \<le> m" and e: "e < length G" and lt: "lexlt m e n x"
      have "(m, e) \<in> ?A" using m e lt by (auto simp: lexlt_def)
      then have "cok G f' m e" using F0 f1 by fastforce
      then show "\<exists>s'. call_card f' s e m = ret (scard G e m) s' \<and> rel {} m e s s' \<and> goodS G s'"
        using s unfolding cok_def by blast
    qed
    have isp: "ispec G (call_index f') n x"
      unfolding ispec_def
    proof (intro allI impI)
      fix s e m j
      assume s: "reach G s" and m: "0 \<le> m" and e: "e < length G" and lt: "lexlt m e n x"
        and j: "0 \<le> j" "j < scard G e m"
      have "(m, e) \<in> ?A" using m e lt by (auto simp: lexlt_def)
      then have "iok G f' m e" using F0 f1 by fastforce
      then show "iresult G (call_index f' s e m j) s (sindex G e m j)"
        using s j unfolding iok_def by blast
    qed
    show "iok G f n x"
      unfolding iok_def f
    proof (intro allI impI)
      fix s i assume s: "reach G s" and i: "0 \<le> i" "i < scard G x n"
      from index_body_ok [OF csp isp wf x n s i f2]
      show "iresult G (call_index (Suc f') s x n i) s (sindex G x n i)"
        by simp
    qed
  qed
qed

text \<open>What \<open>x.index(n, i)\<close> does from a consistent store.\<close>

theorem index_correct:
  assumes "consistent s" "x < length s" "0 \<le> n" "0 \<le> i" "i < scard s x n"
  shows "\<exists>F. \<forall>f\<ge>F. iresult s (call_index f s x n i) s (sindex s x n i)"
proof -
  have wf: "wf_store s" using assms(1) by (simp add: consistent_def)
  from call_index_total [OF wf assms(2,3)] obtain F where F: "\<forall>f\<ge>F. iok s f n x" by blast
  show ?thesis
  proof (intro exI [of _ F] allI impI)
    fix f assume "F \<le> f"
    then have "iok s f n x" using F by simp
    then show "iresult s (call_index f s x n i) s (sindex s x n i)"
      using consistent_reach [OF assms(1)] assms(4,5) unfolding iok_def by blast
  qed
qed

section \<open>Termination, and index out of bounds\<close>

lemma cspec_fuel:
  assumes wf: "wf_store G" and x: "x < length G" and n: "0 \<le> n"
  shows "\<exists>F. \<forall>f\<ge>F. cspec G (call_card f) n x"
proof -
  let ?A = "{(m, e). 0 \<le> m \<and> m \<le> n \<and> e < length G \<and> lexlt m e n x}"
  have "?A \<subseteq> {0..n} \<times> {..<length G}" by auto
  then have fin: "finite ?A" by (rule finite_subset) simp
  have ih: "\<exists>F. \<forall>f\<ge>F. cok G f (fst a) (snd a)" if "a \<in> ?A" for a
  proof -
    obtain m e where a: "a = (m, e)" by (cases a)
    have me: "e < length G" "0 \<le> m" using that a by auto
    from call_card_total [OF wf me] show ?thesis using a by simp
  qed
  have "\<exists>F. \<forall>a\<in>?A. \<forall>f\<ge>F. cok G f (fst a) (snd a)"
    using fin ih by (rule common_fuel [where P = "\<lambda>a f. cok G f (fst a) (snd a)"])
  then obtain F0 where F0: "\<forall>a\<in>?A. \<forall>f\<ge>F0. cok G f (fst a) (snd a)" ..
  show ?thesis
  proof (rule exI [of _ F0], intro allI impI)
    fix f assume f: "F0 \<le> f"
    show "cspec G (call_card f) n x"
      unfolding cspec_def
    proof (intro allI impI)
      fix s e m
      assume s: "st G {} m e s" and m: "0 \<le> m" and e: "e < length G" and lt: "lexlt m e n x"
      have "(m, e) \<in> ?A" using m e lt by (auto simp: lexlt_def)
      then have "cok G f m e" using F0 f by fastforce
      then show "\<exists>s'. call_card f s e m = ret (scard G e m) s' \<and> rel {} m e s s' \<and> goodS G s'"
        using s unfolding cok_def by blast
    qed
  qed
qed

text \<open>
  C10. In a store in which the components of every \<open>Constructor\<close> lie at smaller
  addresses than the \<open>Constructor\<close> itself (\<open>wf_store\<close>, a part of \<open>consistent\<close>), a
  chain of references that comes back to its start passes through an \<open>Enum\<close>: only the
  children of an \<open>Enum\<close> may lie at any address, as in \<open>elist\<close>. There \<open>card(n)\<close>
  returns for every \<open>n \<ge> 0\<close>, and \<open>index(n, i)\<close> returns or raises for every
  \<open>0 \<le> i < card(n)\<close>, before as well as after \<open>card(n)\<close> filled the tables: a number
  of nested calls exists that is enough for all these calls, and every larger number is enough
  too.
\<close>

theorem card_index_terminate:
  assumes "consistent s" "x < length s" "0 \<le> n"
  shows "\<exists>F. \<forall>f\<ge>F. \<exists>c s'. call_card f s x n = ret c s' \<and>
      (\<forall>i. 0 \<le> i \<and> i < c \<longrightarrow>
         (\<exists>r. call_index f s x n i = Some r) \<and> (\<exists>r. call_index f s' x n i = Some r))"
proof -
  have wf: "wf_store s" using assms(1) by (simp add: consistent_def)
  from call_card_total [OF wf assms(2,3)] obtain F1 where F1: "\<forall>f\<ge>F1. cok s f n x" by blast
  from call_index_total [OF wf assms(2,3)] obtain F2 where F2: "\<forall>f\<ge>F2. iok s f n x" by blast
  show ?thesis
  proof (rule exI [of _ "max F1 F2"], intro allI impI)
    fix f assume f: "max F1 F2 \<le> f"
    have r: "reach s s" using assms(1) by (rule consistent_reach)
    have "cok s f n x" using F1 f by simp
    from cokD [OF this r]
    obtain s' where 1: "call_card f s x n = ret (scard s x n) s'" and 2: "reach s s'"
      by blast
    have io: "iok s f n x" using F2 f by simp
    have 3: "\<exists>r. call_index f t x n i = Some r" if "reach s t" "0 \<le> i" "i < scard s x n" for t i
    proof -
      have "iresult s (call_index f t x n i) t (sindex s x n i)"
        using io that unfolding iok_def by blast
      then show ?thesis
        by (cases "sindex s x n i") (auto simp: iresult_Inr ret_def raise_def)
    qed
    show "\<exists>c s'. call_card f s x n = ret c s' \<and>
      (\<forall>i. 0 \<le> i \<and> i < c \<longrightarrow>
         (\<exists>r. call_index f s x n i = Some r) \<and> (\<exists>r. call_index f s' x n i = Some r))"
      using 1 3 [OF r] 3 [OF 2] by blast
  qed
qed

theorem card_index_terminate_witness:
  "\<exists>F. \<forall>f\<ge>F. \<exists>c s'. call_card f (snd nat_lists) (fst nat_lists) 7 = ret c s' \<and>
      (\<forall>i. 0 \<le> i \<and> i < c \<longrightarrow>
         (\<exists>r. call_index f (snd nat_lists) (fst nat_lists) 7 i = Some r) \<and>
         (\<exists>r. call_index f s' (fst nat_lists) 7 i = Some r))"
  using card_index_terminate [OF nat_lists_consistent, of "fst nat_lists" 7]
  by (simp add: nat_lists_eq)

text \<open>
  C4, as stated: \<open>index(n, i)\<close> fails for every enumerator when \<open>i \<ge> card(n)\<close> or
  \<open>i < 0\<close>. \<open>IntEnum.index\<close> never looks at \<open>i\<close>: \<open>IntEnum().card(3)\<close> is 1, and both
  \<open>index(3, 5)\<close> and \<open>index(3, -1)\<close> return 3.
\<close>

theorem index_out_of_bounds_IntEnum_counterexample:
  "call_card 1 [IntEnum] 0 3 = Some (Inr (1, [IntEnum])) \<and>
   call_index 1 [IntEnum] 0 3 5 = Some (Inr (VInt 3, [IntEnum])) \<and>
   call_index 1 [IntEnum] 0 3 (- 1) = Some (Inr (VInt 3, [IntEnum]))"
  by (simp add: index_body_def card_body_def monad_simps)

text \<open>
  C4, amended: for an \<open>Enum\<close> of a consistent store and a size \<open>n \<ge> 1\<close>,
  \<open>index(n, i)\<close> raises \<open>ValueError\<close> for every \<open>i \<ge> card(n)\<close>, before as well as after
  \<open>card(n)\<close> filled the tables.
\<close>

theorem Enum_index_out_of_bounds:
  assumes "consistent s" "x < length s" "s ! x = Enum cons cards" "0 < n"
  shows "\<exists>F. \<forall>f\<ge>F. \<exists>c s'. call_card f s x n = ret c s' \<and>
      (\<forall>i. c \<le> i \<longrightarrow> call_index f s x n i = raise ValueError \<and>
                      call_index f s' x n i = raise ValueError)"
proof -
  have wf: "wf_store s" using assms(1) by (simp add: consistent_def)
  have n: "0 \<le> n" using assms(4) by simp
  have cl: "\<forall>c\<in>set cons. c < length s" using wf assms(2,3) by (auto simp: wf_store_def)
  from call_card_total [OF wf assms(2) n] obtain F1 where F1: "\<forall>f\<ge>F1. cok s f n x" by blast
  from cspec_fuel [OF wf assms(2) n]
  obtain F2 where F2: "\<forall>f\<ge>F2. cspec s (call_card f) n x" by blast
  show ?thesis
  proof (rule exI [of _ "max F1 (Suc F2)"], intro allI impI)
    fix f assume f: "max F1 (Suc F2) \<le> f"
    then obtain f' where ff: "f = Suc f'" and f2: "F2 \<le> f'" by (cases f) auto
    have csp: "cspec s (call_card f') n x" using F2 f2 by simp
    have r: "reach s s" using assms(1) by (rule consistent_reach)
    have "cok s f n x" using F1 f by simp
    from cokD [OF this r]
    obtain s' where 1: "call_card f s x n = ret (scard s x n) s'" and 2: "reach s s'"
      by blast
    have sc: "scard s x n = (\<Sum>c\<leftarrow>cons. scard s c (n - 1))"
      using scard_Enum [OF assms(2,3), of n] assms(4) by simp
    have 3: "call_index f t x n i = raise ValueError" if t: "reach s t" and i: "scard s x n \<le> i" for t i
    proof -
      have xl: "x < length t" using t assms(2) by (simp add: reach_length)
      from st_shape_Enum [OF reach_st [OF t] assms(2,3)]
      obtain cards' where tx: "t ! x = Enum cons cards'" by blast
      have "Enum_index_loop (call_card f') (call_index f') cons n i t = raise ValueError"
        using csp assms(4) t cl i [unfolded sc] by (rule Enum_index_loop_out_of_bounds)
      then show ?thesis unfolding ff using xl tx by (simp add: index_body_def Enum_index_def)
    qed
    show "\<exists>c s'. call_card f s x n = ret c s' \<and>
      (\<forall>i. c \<le> i \<longrightarrow> call_index f s x n i = raise ValueError \<and>
                      call_index f s' x n i = raise ValueError)"
      using 1 3 [OF r] 3 [OF 2] by blast
  qed
qed

theorem Enum_index_out_of_bounds_witness:
  "\<exists>F. \<forall>f\<ge>F. \<exists>c s'. call_card f (snd nat_lists) (fst nat_lists) 5 = ret c s' \<and>
      (\<forall>i. c \<le> i \<longrightarrow> call_index f (snd nat_lists) (fst nat_lists) 5 i = raise ValueError \<and>
                      call_index f s' (fst nat_lists) 5 i = raise ValueError)"
  using Enum_index_out_of_bounds [OF nat_lists_consistent, of "fst nat_lists" "[2, 3]" "[0]" 5]
  by (simp add: nat_lists_eq)

section \<open>The general algorithm in the place of the fast path of arity 1\<close>

lemma scard_general:
  "x < length G \<Longrightarrow> G ! x = Unary con [e] \<Longrightarrow> e < x \<Longrightarrow> 0 \<le> n \<Longrightarrow>
   scard (G[x := Constructor con [e] t cs]) y n = scard G y n"
proof (induction G y n rule: scard.induct)
  case (1 G y n)
  note x = "1.prems"(1) and Gx = "1.prems"(2) and e = "1.prems"(3) and n = "1.prems"(4)
  let ?G = "G[x := Constructor con [e] t cs]"
  show ?case
  proof (cases "y < length G")
    case False
    then show ?thesis by (simp add: scard.simps)
  next
    case y: True
    show ?thesis
    proof (cases "y = x")
      case True
      have "scard ?G e n = scard G e n"
        using "1.IH"(2) [OF y Gx [folded True] refl e [folded True] x Gx e n] .
      then show ?thesis using True x Gx e n
        by (simp add: scard.simps [of G x n] scard.simps [of ?G x n])
    next
      case False
      then have same: "?G ! y = G ! y" by simp
      show ?thesis
      proof (cases "G ! y")
        case IntEnum
        then show ?thesis using y same by (simp add: scard.simps)
      next
        case (Enum cons cards)
        have "(\<Sum>c\<leftarrow>cons. scard ?G c (n - 1)) = (\<Sum>c\<leftarrow>cons. scard G c (n - 1))"
          if "\<not> n \<le> 0"
        proof (rule arg_cong [where f = sum_list], rule map_cong [OF refl])
          fix c assume "c \<in> set cons"
          from "1.IH"(1) [OF y Enum that this x Gx e] that
          show "scard ?G c (n - 1) = scard G c (n - 1)" by simp
        qed
        then show ?thesis using y Enum same
          by (simp add: scard.simps [of G y n] scard.simps [of ?G y n])
      next
        case (Nullary con)
        then show ?thesis using y same by (simp add: scard.simps)
      next
        case (Unary con' enums)
        show ?thesis
        proof (cases enums)
          case Nil
          then show ?thesis using y Unary same
            by (simp add: scard.simps [of G y n] scard.simps [of ?G y n])
        next
          case (Cons e' rest)
          have "scard ?G e' n = scard G e' n" if "e' < y"
            using "1.IH"(2) [OF y Unary Cons that x Gx e n] .
          then show ?thesis using y Unary same Cons
            by (simp add: scard.simps [of G y n] scard.simps [of ?G y n])
        qed
      next
        case (Constructor con' enums nxt cs')
        have "(\<lambda>e m. if e < y \<and> 0 \<le> m \<and> m \<le> n then scard ?G e m else 0) =
              (\<lambda>e m. if e < y \<and> 0 \<le> m \<and> m \<le> n then scard G e m else 0)"
          using "1.IH"(3) [OF y Constructor _ x Gx e] by (intro ext) auto
        then show ?thesis using y Constructor same
          by (simp add: scard.simps [of G y n] scard.simps [of ?G y n])
      qed
    qed
  qed
qed

lemma pick_cong: "(\<And>c. c \<in> set xs \<Longrightarrow> B c = B' c) \<Longrightarrow> pick B xs i = pick B' xs i"
  by (induction xs arbitrary: i) auto

lemma proddecode_congC:
  "0 \<le> n \<Longrightarrow> (\<And>e m. e \<in> set es \<Longrightarrow> 0 \<le> m \<Longrightarrow> m \<le> n \<Longrightarrow> C e m = C' e m) \<Longrightarrow>
   proddecode C D es n i = proddecode C' D es n i"
proof (induction C D es n i rule: proddecode.induct)
  case (3 C D e e' es n i)
  let ?B = "\<lambda>sz. C e sz * prodcard C (e' # es) (n - sz)"
  let ?B' = "\<lambda>sz. C' e sz * prodcard C' (e' # es) (n - sz)"
  have "?B sz = ?B' sz" if "sz \<in> set [0..n]" for sz
  proof -
    have "prodcard C (e' # es) (n - sz) = prodcard C' (e' # es) (n - sz)"
      using that "3.prems" by (intro prodcard_cong) auto
    moreover have "C e sz = C' e sz" using that "3.prems" by auto
    ultimately show ?thesis by simp
  qed
  then have pk: "pick ?B [0..n] i = pick ?B' [0..n] i" by (rule pick_cong)
  show ?case
  proof (cases "pick ?B [0..n] i")
    case None
    then show ?thesis using pk by simp
  next
    case (Some a)
    obtain sz j where a: "a = (sz, j)" by (cases a)
    have sz: "0 \<le> sz" "sz \<le> n" using pick_mem [OF Some [unfolded a]] by auto
    have 1: "C e sz = C' e sz" using "3.prems" sz by simp
    have 2: "proddecode C D (e' # es) (n - sz) (j div C e sz) =
             proddecode C' D (e' # es) (n - sz) (j div C e sz)"
      using Some a sz "3.prems" by (intro "3.IH") auto
    show ?thesis using Some a 1 2 pk by simp
  qed
qed auto

lemma sindex_general:
  "x < length G \<Longrightarrow> G ! x = Unary con [e] \<Longrightarrow> e < x \<Longrightarrow> 0 \<le> n \<Longrightarrow>
   sindex (G[x := Constructor con [e] t cs]) y n i = sindex G y n i"
proof (induction G y n i rule: sindex.induct)
  case (1 G y n i)
  note x = "1.prems"(1) and Gx = "1.prems"(2) and e = "1.prems"(3) and n = "1.prems"(4)
  let ?G = "G[x := Constructor con [e] t cs]"
  have sc: "scard ?G c m = scard G c m" if "0 \<le> m" for c m
    using x Gx e that by (rule scard_general)
  show ?case
  proof (cases "y < length G")
    case False
    then show ?thesis by (simp add: sindex.simps)
  next
    case y: True
    show ?thesis
    proof (cases "y = x")
      case True
      have "sindex ?G e n i = sindex G e n i"
        using "1.IH"(2) [OF y Gx [folded True] refl e [folded True] x Gx e n] .
      then show ?thesis using True x Gx e n
        by (simp add: sindex.simps [of G x n i] sindex.simps [of ?G x n i] bindE_assoc)
    next
      case False
      then have same: "?G ! y = G ! y" by simp
      show ?thesis
      proof (cases "G ! y")
        case IntEnum
        then show ?thesis using y same by (simp add: sindex.simps)
      next
        case (Enum cons cards)
        show ?thesis
        proof (cases "n \<le> 0")
          case True
          then show ?thesis using y Enum same
            by (simp add: sindex.simps [of G y n i] sindex.simps [of ?G y n i])
        next
          case pos: False
          have pk: "pick (\<lambda>c. scard ?G c (n - 1)) cons i = pick (\<lambda>c. scard G c (n - 1)) cons i"
            using pos by (intro pick_cong sc) simp
          show ?thesis
          proof (cases "pick (\<lambda>c. scard G c (n - 1)) cons i")
            case None
            then show ?thesis using y Enum same pk pos
              by (simp add: sindex.simps [of G y n i] sindex.simps [of ?G y n i])
          next
            case (Some a)
            obtain c j where a: "a = (c, j)" by (cases a)
            have "sindex ?G c (n - 1) j = sindex G c (n - 1) j"
              using "1.IH"(1) [OF y Enum pos Some a [symmetric] x Gx e] pos by simp
            then show ?thesis using y Enum same pk pos Some a
              by (simp add: sindex.simps [of G y n i] sindex.simps [of ?G y n i])
          qed
        qed
      next
        case (Nullary con)
        then show ?thesis using y same by (simp add: sindex.simps)
      next
        case (Unary con' enums)
        show ?thesis
        proof (cases enums)
          case Nil
          then show ?thesis using y Unary same
            by (simp add: sindex.simps [of G y n i] sindex.simps [of ?G y n i])
        next
          case (Cons e' rest)
          have "sindex ?G e' n i = sindex G e' n i" if "e' < y"
            using "1.IH"(2) [OF y Unary Cons that x Gx e n] .
          then show ?thesis using y Unary same Cons
            by (simp add: sindex.simps [of G y n i] sindex.simps [of ?G y n i])
        qed
      next
        case (Constructor con' enums nxt cs')
        have D: "(\<lambda>e m j. if e < y \<and> 0 \<le> m \<and> m \<le> n then sindex ?G e m j else Inl BadReference) =
              (\<lambda>e m j. if e < y \<and> 0 \<le> m \<and> m \<le> n then sindex G e m j else Inl BadReference)"
          using "1.IH"(3) [OF y Constructor _ x Gx e] by (intro ext) auto
        have "proddecode (scard ?G)
                (\<lambda>e m j. if e < y \<and> 0 \<le> m \<and> m \<le> n then sindex ?G e m j else Inl BadReference)
                enums n i =
              proddecode (scard G)
                (\<lambda>e m j. if e < y \<and> 0 \<le> m \<and> m \<le> n then sindex G e m j else Inl BadReference)
                enums n i"
          unfolding D using n by (intro proddecode_congC sc)
        then show ?thesis using y Constructor same
          by (simp add: sindex.simps [of G y n i] sindex.simps [of ?G y n i])
      qed
    qed
  qed
qed

lemma good_obj_cong:
  assumes "\<And>y n. 0 \<le> n \<Longrightarrow> scard G y n = scard G' y n"
  shows "good_obj G q ob = good_obj G' q ob"
proof (cases ob)
  case (Enum cons cards)
  then show ?thesis using assms by simp
next
  case (Constructor con enums nxt cs)
  have "prodcard (scard G) es (int m) = prodcard (scard G') es (int m)" for es m
    using assms by (intro prodcard_cong) auto
  then show ?thesis using Constructor by simp
qed auto

text \<open>
  The general representation in the place of the fast path of arity 1: the store stays
  consistent.
\<close>

lemma consistent_general:
  assumes c: "consistent s" and x: "x < length s" and sx: "s ! x = Unary con [e]"
  shows "consistent (s[x := Constructor_general con [e]])"
proof -
  let ?s = "s[x := Constructor con [e] 0 [[]]]"
  have wf: "wf_store s" using c by (simp add: consistent_def)
  have e: "e < x" using wf x sx by (auto simp: wf_store_def)
  have wf': "wf_store ?s"
    unfolding wf_store_def
  proof (intro allI impI)
    fix q assume q: "q < length ?s"
    show "wf_obj (length ?s) q (?s ! q)"
      using wf q e by (cases "q = x") (auto simp: wf_store_def)
  qed
  have g: "good_obj ?s q ob = good_obj s q ob" for q ob
    by (rule good_obj_cong) (rule scard_general [OF x sx e])
  have "good_obj ?s q (?s ! q) \<and> tidy (?s ! q)" if q: "q < length ?s" for q
  proof (cases "q = x")
    case True
    then show ?thesis using x by simp
  next
    case False
    then show ?thesis using c q g by (simp add: consistent_def)
  qed
  then show ?thesis using wf' by (simp add: consistent_def Constructor_general_def)
qed

lemma iresult_outcome: "iresult G r s sem \<Longrightarrow> outcome r = Some sem"
  by (cases sem) (auto simp: iresult_Inr outcome_def raise_def ret_def)

lemma Constructor_init_arity1: "Constructor_init con [e] = Unary con [e]"
  by (simp add: Constructor_init_def)

text \<open>
  C9, as stated: the fast paths give what the general algorithm gives with \<open>K = 0\<close> and
  \<open>K = 1\<close> components. With no component the general algorithm has an empty matrix and
  \<open>expand\<close> fails on \<open>self.cs[-1]\<close>: for the constructor of the empty list the fast path
  gives \<open>card(1) = 1\<close> and \<open>index(1, 0) = []\<close>, the general algorithm raises
  \<open>IndexError\<close> in both.
\<close>

theorem general_arity0_counterexample:
  "outcome (call_card 3 [Constructor_init nil []] 0 1) = Some (Inr 1) \<and>
   outcome (call_card 3 [Constructor_general nil []] 0 1) = Some (Inl IndexError) \<and>
   outcome (call_index 3 [Constructor_init nil []] 0 1 0) = Some (Inr (VList [])) \<and>
   outcome (call_index 3 [Constructor_general nil []] 0 1 0) = Some (Inl IndexError)"
  by code_simp

text \<open>
  C9, amended: in a consistent store, the fast path of arity 1 and the general algorithm
  with one component, put in its place, return the same \<open>card(n)\<close> for every
  \<open>n \<ge> 0\<close>, and \<open>index(n, i)\<close> returns the same value or raises the same error in both
  for every \<open>0 \<le> i < card(n)\<close>.
\<close>

theorem arity1_fast_path_general:
  assumes "consistent s" "x < length s" "s ! x = Constructor_init con [e]" "0 \<le> n"
  shows "\<exists>F. \<forall>f\<ge>F. \<exists>c s1 s2.
      call_card f s x n = ret c s1 \<and>
      call_card f (s[x := Constructor_general con [e]]) x n = ret c s2 \<and>
      (\<forall>i. 0 \<le> i \<and> i < c \<longrightarrow>
         (\<exists>r. outcome (call_index f s x n i) = Some r \<and>
              outcome (call_index f (s[x := Constructor_general con [e]]) x n i) = Some r))"
proof -
  let ?g = "s[x := Constructor_general con [e]]"
  have sx: "s ! x = Unary con [e]" using assms(3) by (simp add: Constructor_init_arity1)
  have wf: "wf_store s" using assms(1) by (simp add: consistent_def)
  have e: "e < x" using wf assms(2) sx by (auto simp: wf_store_def)
  have cg: "consistent ?g" using assms(1,2) sx by (rule consistent_general)
  have wfg: "wf_store ?g" using cg by (simp add: consistent_def)
  have xg: "x < length ?g" using assms(2) by simp
  have sc: "scard ?g x n = scard s x n"
    unfolding Constructor_general_def using assms(2) sx e assms(4) by (rule scard_general)
  have si: "sindex ?g x n i = sindex s x n i" for i
    unfolding Constructor_general_def using assms(2) sx e assms(4) by (rule sindex_general)
  from call_card_total [OF wf assms(2,4)] obtain F1 where F1: "\<forall>f\<ge>F1. cok s f n x" by blast
  from call_index_total [OF wf assms(2,4)] obtain F2 where F2: "\<forall>f\<ge>F2. iok s f n x" by blast
  from call_card_total [OF wfg xg assms(4)] obtain F3 where F3: "\<forall>f\<ge>F3. cok ?g f n x" by blast
  from call_index_total [OF wfg xg assms(4)] obtain F4 where F4: "\<forall>f\<ge>F4. iok ?g f n x" by blast
  show ?thesis
  proof (rule exI [of _ "max (max F1 F2) (max F3 F4)"], intro allI impI)
    fix f assume f: "max (max F1 F2) (max F3 F4) \<le> f"
    have r: "reach s s" using assms(1) by (rule consistent_reach)
    have rg: "reach ?g ?g" using cg by (rule consistent_reach)
    have "cok s f n x" using F1 f by simp
    from cokD [OF this r]
    obtain s1 where 1: "call_card f s x n = ret (scard s x n) s1" by blast
    have "cok ?g f n x" using F3 f by simp
    from cokD [OF this rg]
    obtain s2 where 2: "call_card f ?g x n = ret (scard s x n) s2" unfolding sc by blast
    have io: "iok s f n x" using F2 f by simp
    have iog: "iok ?g f n x" using F4 f by simp
    have 3: "outcome (call_index f s x n i) = Some (sindex s x n i) \<and>
             outcome (call_index f ?g x n i) = Some (sindex s x n i)"
      if i: "0 \<le> i" "i < scard s x n" for i
    proof -
      have "iresult s (call_index f s x n i) s (sindex s x n i)"
        using io r i unfolding iok_def by blast
      moreover have "iresult ?g (call_index f ?g x n i) ?g (sindex ?g x n i)"
        using iog rg i sc unfolding iok_def by simp
      ultimately show ?thesis using si by (simp add: iresult_outcome)
    qed
    show "\<exists>c s1 s2. call_card f s x n = ret c s1 \<and> call_card f ?g x n = ret c s2 \<and>
      (\<forall>i. 0 \<le> i \<and> i < c \<longrightarrow>
         (\<exists>r. outcome (call_index f s x n i) = Some r \<and> outcome (call_index f ?g x n i) = Some r))"
      using 1 2 3 by blast
  qed
qed

theorem arity1_fast_path_general_witness:
  "\<exists>F. \<forall>f\<ge>F. \<exists>c s1 s2.
      call_card f [IntEnum, Constructor_init (\<lambda>vs. Inr (VList vs)) [0]] 1 3 = ret c s1 \<and>
      call_card f [IntEnum, Constructor_general (\<lambda>vs. Inr (VList vs)) [0]] 1 3 = ret c s2 \<and>
      (\<forall>i. 0 \<le> i \<and> i < c \<longrightarrow>
         (\<exists>r. outcome (call_index f [IntEnum, Constructor_init (\<lambda>vs. Inr (VList vs)) [0]] 1 3 i) = Some r \<and>
              outcome (call_index f [IntEnum, Constructor_general (\<lambda>vs. Inr (VList vs)) [0]] 1 3 i) = Some r))"
  using arity1_fast_path_general [of "[IntEnum, Constructor_init (\<lambda>vs. Inr (VList vs)) [0]]" 1
      "\<lambda>vs. Inr (VList vs)" 0 3]
  by (simp add: fresh_consistent wf_store_def less_Suc_eq Constructor_init_arity1)

section \<open>Calls answered from the tables\<close>

text \<open>
  A constructor with one component hands \<open>card\<close> to its component: a chain of them ends
  in an object \<open>y\<close> of another kind, \<open>k\<close> calls further.
\<close>

lemma card_Unary_chain:
  assumes wf: "wf_store G"
  shows "x < length G \<Longrightarrow>
     \<exists>y k. y < length G \<and> (\<forall>con es. G ! y \<noteq> Unary con es) \<and>
       (\<forall>s f n. map erase s = map erase G \<longrightarrow> call_card (f + k) s x n = call_card f s y n)"
proof (induction x rule: less_induct)
  case (less x)
  show ?case
  proof (cases "\<exists>con es. G ! x = Unary con es")
    case False
    then show ?thesis using less.prems by (intro exI [of _ x] exI [of _ 0]) simp
  next
    case True
    then obtain con es where Gx: "G ! x = Unary con es" by blast
    from wf less.prems Gx obtain e where es: "es = [e]" and e: "e < x"
      by (cases es) (auto simp: wf_store_def)
    have eG: "e < length G" using e less.prems by simp
    from less.IH [OF e eG] obtain y k where y: "y < length G" "\<forall>con es. G ! y \<noteq> Unary con es"
      and ch: "\<forall>s f n. map erase s = map erase G \<longrightarrow> call_card (f + k) s e n = call_card f s y n"
      by blast
    have "call_card (f + Suc k) s x n = call_card f s y n" if s: "map erase s = map erase G" for s f n
    proof -
      have xl: "x < length s" using s less.prems by (metis length_map)
      have "erase (s ! x) = erase (G ! x)" using s less.prems by (metis length_map nth_map)
      then have "s ! x = Unary con [e]" using Gx es by (simp add: erase_Unary)
      then have "call_card (Suc (f + k)) s x n = call_card (f + k) s e n"
        using xl by (intro card_Unary) simp
      then show ?thesis using ch s by simp
    qed
    then show ?thesis using y by (intro exI [of _ y] exI [of _ "Suc k"]) simp
  qed
qed

lemma card_memo_stable_leaf:
  assumes "reach G s" "x < length G" "G ! x = IntEnum \<or> (\<exists>con. G ! x = Nullary con)"
  shows "\<exists>v. call_card (Suc f) s x n = ret v s"
proof -
  have xl: "x < length s" using assms(1,2) by (simp add: reach_length)
  have er: "erase (s ! x) = erase (G ! x)" using reach_st [OF assms(1)] assms(2) by (rule st_erase)
  from assms(3) show ?thesis
  proof (elim disjE exE)
    assume "G ! x = IntEnum"
    then have "s ! x = IntEnum" using er by (simp add: erase_IntEnum)
    then show ?thesis using xl by (simp add: card_body_def)
  next
    fix con assume "G ! x = Nullary con"
    then have "s ! x = Nullary con" using er by (simp add: erase_Nullary)
    then show ?thesis using xl by (simp add: card_body_def)
  qed
qed

text \<open>
  C8, as stated: after \<open>card(n)\<close>, \<open>card(m)\<close> returns for every \<open>m \<le> n\<close> what it returns
  alone. For the constructor of the non-empty lists of \<open>elist(IntEnum())\<close>, \<open>card(-1)\<close>
  alone raises \<open>IndexError\<close> (\<open>self.cs[0][-1]\<close> on an empty row); after \<open>card(5)\<close>,
  which returns 8, \<open>card(-1)\<close> returns the last entry of the row, 8.
\<close>

theorem card_negative_after_expand_counterexample:
  "outcome (call_card 20 (snd nat_lists) 3 (- 1)) = Some (Inl IndexError) \<and>
   outcome (call_card 20 (snd nat_lists) 3 5) = Some (Inr 8) \<and>
   outcome (bind (call_card 20 (snd nat_lists) 3 5) (\<lambda>_ s. call_card 20 s 3 (- 1))) = Some (Inr 8)"
  by code_simp

text \<open>
  C8, amended: for every object of a consistent store (an \<open>Enum\<close>, a \<open>Constructor\<close> of
  any arity, an \<open>IntEnum\<close>), with no \<open>addcon\<close> between the calls, and \<open>0 \<le> m \<le> n\<close>:
  \<open>card(n)\<close> called twice returns the same value, the second call leaving the store as it
  found it; \<open>card(m)\<close> after \<open>card(n)\<close> returns what \<open>card(m)\<close> alone returns, again
  without a change of the store; and every table of the store after \<open>card(n)\<close> extends the
  table before it (\<open>grows\<close>).
\<close>

theorem card_memo_stable:
  assumes "consistent s" "x < length s" "0 \<le> m" "m \<le> n"
  shows "\<exists>F. \<forall>f\<ge>F. \<exists>v w s1 s2.
      call_card f s x n = ret v s1 \<and> call_card f s1 x n = ret v s1 \<and>
      call_card f s x m = ret w s2 \<and> call_card f s1 x m = ret w s1 \<and>
      grows s s1"
proof -
  have wf: "wf_store s" using assms(1) by (simp add: consistent_def)
  have r: "reach s s" using assms(1) by (rule consistent_reach)
  from card_Unary_chain [OF wf assms(2)]
  obtain y k where y: "y < length s" and nu: "\<forall>con es. s ! y \<noteq> Unary con es"
    and ch: "\<forall>t f n. map erase t = map erase s \<longrightarrow> call_card (f + k) t x n = call_card f t y n"
    by blast
  have "\<exists>F. \<forall>f\<ge>F. \<exists>v w s1 s2.
      call_card f s y n = ret v s1 \<and> call_card f s1 y n = ret v s1 \<and>
      call_card f s y m = ret w s2 \<and> call_card f s1 y m = ret w s1 \<and>
      grows s s1 \<and> reach s s1"
  proof (cases "s ! y = IntEnum \<or> (\<exists>con. s ! y = Nullary con)")
    case True
    show ?thesis
    proof (rule exI [of _ 1], intro allI impI)
      fix f :: nat assume "1 \<le> f"
      then obtain f' where f: "f = Suc f'" by (cases f) auto
      from card_memo_stable_leaf [OF r y True, of f' n]
      obtain v where 1: "call_card f s y n = ret v s" unfolding f by blast
      from card_memo_stable_leaf [OF r y True, of f' m]
      obtain w where 2: "call_card f s y m = ret w s" unfolding f by blast
      show "\<exists>v w s1 s2.
        call_card f s y n = ret v s1 \<and> call_card f s1 y n = ret v s1 \<and>
        call_card f s y m = ret w s2 \<and> call_card f s1 y m = ret w s1 \<and>
        grows s s1 \<and> reach s s1"
        using 1 2 r by (intro exI [of _ v] exI [of _ w] exI [of _ s]) simp
    qed
  next
    case False
    then have memo: "(\<exists>cons cards. s ! y = Enum cons cards) \<or>
        (\<exists>con enums nxt cs. s ! y = Constructor con enums nxt cs)"
      using nu by (cases "s ! y") auto
    from card_memo_stable_table [OF assms(1) y memo assms(3,4)] show ?thesis .
  qed
  then obtain F where F: "\<forall>f\<ge>F. \<exists>v w s1 s2.
      call_card f s y n = ret v s1 \<and> call_card f s1 y n = ret v s1 \<and>
      call_card f s y m = ret w s2 \<and> call_card f s1 y m = ret w s1 \<and>
      grows s s1 \<and> reach s s1" ..
  show ?thesis
  proof (rule exI [of _ "F + k"], intro allI impI)
    fix f assume fk: "F + k \<le> f"
    define f' where "f' = f - k"
    have f: "f = f' + k" and f': "F \<le> f'" using fk by (simp_all add: f'_def)
    from F f' obtain v w s1 s2 where 1: "call_card f' s y n = ret v s1"
      and 2: "call_card f' s1 y n = ret v s1" and 3: "call_card f' s y m = ret w s2"
      and 4: "call_card f' s1 y m = ret w s1" and g: "grows s s1" and r1: "reach s s1"
      by blast
    have e1: "map erase s1 = map erase s" using r1 by (simp add: reach_def goodS_def)
    have c1: "call_card f s x n = ret v s1"
      unfolding f using ch [rule_format, OF refl, of f' n] 1 by simp
    have c2: "call_card f s1 x n = ret v s1"
      unfolding f using ch [rule_format, OF e1, of f' n] 2 by simp
    have c3: "call_card f s x m = ret w s2"
      unfolding f using ch [rule_format, OF refl, of f' m] 3 by simp
    have c4: "call_card f s1 x m = ret w s1"
      unfolding f using ch [rule_format, OF e1, of f' m] 4 by simp
    show "\<exists>v w s1 s2.
      call_card f s x n = ret v s1 \<and> call_card f s1 x n = ret v s1 \<and>
      call_card f s x m = ret w s2 \<and> call_card f s1 x m = ret w s1 \<and> grows s s1"
      using c1 c2 c3 c4 g by blast
  qed
qed

theorem card_memo_stable_witness:
  "\<exists>F. \<forall>f\<ge>F. \<exists>v w s1 s2.
      call_card f (snd nat_lists) 3 5 = ret v s1 \<and> call_card f s1 3 5 = ret v s1 \<and>
      call_card f (snd nat_lists) 3 4 = ret w s2 \<and> call_card f s1 3 4 = ret w s1 \<and>
      grows (snd nat_lists) s1"
  using card_memo_stable [OF nat_lists_consistent, of 3 4 5]
  by (simp add: nat_lists_eq)

section \<open>Injectivity of index\<close>

lemma bindE_Inr: "bindE m f = Inr v \<longleftrightarrow> (\<exists>a. m = Inr a \<and> f a = Inr v)"
  by (cases m) auto

lemma pick_range:
  "pick B xs i = Some (c, r) \<Longrightarrow> 0 \<le> i \<Longrightarrow> c \<in> set xs \<and> 0 \<le> r \<and> r < B c"
  by (induction xs arbitrary: i) (auto split: if_splits)

lemma pick_inj:
  "distinct xs \<Longrightarrow> pick B xs i = Some (c, r) \<Longrightarrow> pick B xs j = Some (c, r) \<Longrightarrow> i = j"
proof (induction xs arbitrary: i j)
  case Nil
  then show ?case by simp
next
  case (Cons a xs)
  show ?case
  proof (cases "i < B a")
    case i: True
    then have c: "c = a" "r = i" using Cons.prems(2) by simp_all
    show ?thesis
    proof (cases "j < B a")
      case True
      then show ?thesis using Cons.prems(3) c by simp
    next
      case False
      then have "pick B xs (j - B a) = Some (a, r)" using Cons.prems(3) c by simp
      then have "a \<in> set xs" by (rule pick_mem)
      then show ?thesis using Cons.prems(1) by simp
    qed
  next
    case i: False
    then have pi: "pick B xs (i - B a) = Some (c, r)" using Cons.prems(2) by simp
    then have "c \<in> set xs" by (rule pick_mem)
    then have ca: "c \<noteq> a" using Cons.prems(1) by auto
    have "\<not> j < B a" using Cons.prems(3) ca by (auto split: if_splits)
    then have pj: "pick B xs (j - B a) = Some (c, r)" using Cons.prems(3) by simp
    have "i - B a = j - B a" using Cons.prems(1) pi pj by (intro Cons.IH) auto
    then show ?thesis by simp
  qed
qed

lemma proddecode_inj:
  assumes C0: "\<And>e m. 0 \<le> C e m"
  shows "0 \<le> n \<Longrightarrow> 0 \<le> n' \<Longrightarrow>
     (\<And>e m m' i j v. e \<in> set es \<Longrightarrow> 0 \<le> m \<Longrightarrow> m \<le> n \<Longrightarrow> 0 \<le> m' \<Longrightarrow> m' \<le> n' \<Longrightarrow>
        0 \<le> i \<Longrightarrow> i < C e m \<Longrightarrow> 0 \<le> j \<Longrightarrow> j < C e m' \<Longrightarrow>
        D e m i = Inr v \<Longrightarrow> D e m' j = Inr v \<Longrightarrow> m = m' \<and> i = j) \<Longrightarrow>
     0 \<le> i \<Longrightarrow> i < prodcard C es n \<Longrightarrow> 0 \<le> j \<Longrightarrow> j < prodcard C es n' \<Longrightarrow>
     proddecode C D es n i = Inr vs \<Longrightarrow> proddecode C D es n' j = Inr vs \<Longrightarrow> n = n' \<and> i = j"
proof (induction es arbitrary: n n' i j vs)
  case Nil
  then show ?case by simp
next
  case (Cons e es)
  note n = Cons.prems(1,2) and comp = Cons.prems(3) and i = Cons.prems(4,5) and j = Cons.prems(6,7)
    and di = Cons.prems(8) and dj = Cons.prems(9)
  show ?case
  proof (cases es)
    case Nil
    from di Nil obtain v where 1: "D e n i = Inr v" by (auto simp: bindE_Inr)
    from dj Nil di have 2: "D e n' j = Inr v" using 1 by (auto simp: bindE_Inr)
    show ?thesis
      using comp [of e n n' i j v] n i j 1 2 Nil by simp
  next
    case (Cons e' es')
    let ?P = "prodcard C (e' # es')"
    let ?B = "\<lambda>sz. C e sz * ?P (n - sz)"
    let ?B' = "\<lambda>sz. C e sz * ?P (n' - sz)"
    from di Cons obtain sz r v ws where pi: "pick ?B [0..n] i = Some (sz, r)"
      and vi: "D e sz (r mod C e sz) = Inr v"
      and wi: "proddecode C D (e' # es') (n - sz) (r div C e sz) = Inr ws" and vs: "vs = v # ws"
      by (auto simp: bindE_Inr split: option.splits)
    from dj Cons vs obtain sz' r' where pj: "pick ?B' [0..n'] j = Some (sz', r')"
      and vj: "D e sz' (r' mod C e sz') = Inr v"
      and wj: "proddecode C D (e' # es') (n' - sz') (r' div C e sz') = Inr ws"
      by (auto simp: bindE_Inr split: option.splits)
    from pick_range [OF pi i(1)] have sz: "0 \<le> sz" "sz \<le> n" and r: "0 \<le> r" "r < ?B sz" by auto
    from pick_range [OF pj j(1)] have sz': "0 \<le> sz'" "sz' \<le> n'" and r': "0 \<le> r'" "r' < ?B' sz'"
      by auto
    have d: "0 < C e sz"
    proof (rule ccontr)
      assume "\<not> 0 < C e sz"
      then have "C e sz = 0" using C0 [of e sz] by simp
      then show False using r by simp
    qed
    have d': "0 < C e sz'"
    proof (rule ccontr)
      assume "\<not> 0 < C e sz'"
      then have "C e sz' = 0" using C0 [of e sz'] by simp
      then show False using r' by simp
    qed
    have m1: "0 \<le> r mod C e sz" "r mod C e sz < C e sz" using d by simp_all
    have m2: "0 \<le> r' mod C e sz'" "r' mod C e sz' < C e sz'" using d' by simp_all
    have "sz = sz' \<and> r mod C e sz = r' mod C e sz'"
      using _ sz sz' m1 m2 vi vj by (rule comp) simp
    then have ss: "sz' = sz" and rm: "r mod C e sz = r' mod C e sz" by auto
    have q: "r div C e sz < ?P (n - sz)" using r(2) d by (intro int_div_less) simp_all
    have q': "r' div C e sz < ?P (n' - sz)" using r'(2) d ss by (intro int_div_less) simp_all
    have q0: "0 \<le> r div C e sz" "0 \<le> r' div C e sz"
      using d r(1) r'(1) by (simp_all add: pos_imp_zdiv_nonneg_iff)
    have "n - sz = n' - sz \<and> r div C e sz = r' div C e sz"
    proof (rule Cons.IH [where vs = ws])
      show "0 \<le> n - sz" "0 \<le> n' - sz" using sz sz' ss by simp_all
      show "proddecode C D es (n - sz) (r div C e sz) = Inr ws" using wi Cons by simp
      show "proddecode C D es (n' - sz) (r' div C e sz) = Inr ws" using wj Cons ss by simp
      show "r div C e sz < prodcard C es (n - sz)" using q Cons by simp
      show "r' div C e sz < prodcard C es (n' - sz)" using q' Cons by simp
      show "0 \<le> r div C e sz" "0 \<le> r' div C e sz" using q0 by simp_all
      show "m = m' \<and> a = b"
        if "x \<in> set es" "0 \<le> m" "m \<le> n - sz" "0 \<le> m'" "m' \<le> n' - sz"
          "0 \<le> a" "a < C x m" "0 \<le> b" "b < C x m'" "D x m a = Inr w" "D x m' b = Inr w"
        for x m m' a b w
        using comp [of x m m' a b w] that sz by simp
    qed
    then have nn: "n' = n" and rd: "r div C e sz = r' div C e sz" by simp_all
    have "r = r'" using rm rd by (metis mult_div_mod_eq)
    then have "pick ?B [0..n] j = Some (sz, r)" using pj ss nn by simp
    then have "i = j" using pi by (intro pick_inj [of "[0..n]" ?B i sz r j]) simp_all
    then show ?thesis using nn by simp
  qed
qed

lemma sum_measure:
  assumes "a \<le> b" "a = b \<Longrightarrow> e < x" "e < N" "x < N"
  shows "a * N + e < b * N + (x::nat)"
proof (cases "a < b")
  case True
  then have "Suc a * N \<le> b * N" by (intro mult_le_mono1) simp
  then show ?thesis using assms(3) by simp
next
  case False
  then show ?thesis using assms by simp
qed

lemma buildsD:
  assumes "builds ty con es T" "args_of ty es as"
  obtains v where "con as = Inr v" "v \<in> T"
  using assms unfolding builds_def by blast

lemma builds_inj:
  assumes "builds ty con es T" "args_of ty es as" "args_of ty es bs" "con as = Inr v" "con bs = Inr v"
  shows "as = bs"
  using assms unfolding builds_def by simp

text \<open>The decoding of a product of typed components returns typed components.\<close>

lemma proddecode_typed:
  assumes C0: "\<And>e m. 0 \<le> C e m"
  shows "es \<noteq> [] \<Longrightarrow> 0 \<le> n \<Longrightarrow>
     (\<And>e m j. e \<in> set es \<Longrightarrow> 0 \<le> m \<Longrightarrow> m \<le> n \<Longrightarrow> 0 \<le> j \<Longrightarrow> j < C e m \<Longrightarrow>
        \<exists>v. D e m j = Inr v \<and> v \<in> ty e) \<Longrightarrow>
     0 \<le> i \<Longrightarrow> i < prodcard C es n \<Longrightarrow>
     \<exists>vs. proddecode C D es n i = Inr vs \<and> args_of ty es vs"
proof (induction es arbitrary: n i)
  case Nil
  then show ?case by simp
next
  case (Cons e es)
  note n = Cons.prems(2) and comp = Cons.prems(3) and i = Cons.prems(4,5)
  show ?case
  proof (cases es)
    case Nil
    from comp [of e n i] n i Nil obtain v where "D e n i = Inr v" "v \<in> ty e" by auto
    then show ?thesis using Nil by (simp add: args_of_def)
  next
    case (Cons e' es')
    let ?P = "prodcard C (e' # es')"
    let ?B = "\<lambda>sz. C e sz * ?P (n - sz)"
    have bs: "(\<Sum>sz\<leftarrow>[0..n]. ?B sz) = prodcard C (e # e' # es') n"
      using blocks_sum [of 0 "e # e' # es'" C n] by simp
    have nonneg: "0 \<le> ?B c" for c
      by (intro mult_nonneg_nonneg prodcard_nonneg C0)
    obtain sz r where pk: "pick ?B [0..n] i = Some (sz, r)" and szm: "sz \<in> set [0..n]"
      and r: "0 \<le> r" "r < ?B sz"
      using pick_Some [of "[0..n]" ?B i] nonneg i bs Cons by metis
    have sz: "0 \<le> sz" "sz \<le> n" using szm by simp_all
    have d: "0 < C e sz"
    proof (rule ccontr)
      assume "\<not> 0 < C e sz"
      then have "C e sz = 0" using C0 [of e sz] by simp
      then show False using r by simp
    qed
    have m1: "0 \<le> r mod C e sz" "r mod C e sz < C e sz" using d by simp_all
    from comp [of e sz "r mod C e sz"] sz m1
    obtain v where v: "D e sz (r mod C e sz) = Inr v" "v \<in> ty e" by auto
    have q: "r div C e sz < ?P (n - sz)" using r(2) d by (intro int_div_less) simp_all
    have q0: "0 \<le> r div C e sz" using d r(1) by (simp add: pos_imp_zdiv_nonneg_iff)
    have "\<exists>ws. proddecode C D es (n - sz) (r div C e sz) = Inr ws \<and> args_of ty es ws"
    proof (rule Cons.IH)
      show "es \<noteq> []" using Cons by simp
      show "0 \<le> n - sz" using sz by simp
      show "0 \<le> r div C e sz" using q0 .
      show "r div C e sz < prodcard C es (n - sz)" using q Cons by simp
      show "\<exists>v. D x m j = Inr v \<and> v \<in> ty x"
        if "x \<in> set es" "0 \<le> m" "m \<le> n - sz" "0 \<le> j" "j < C x m" for x m j
        using comp [of x m j] that sz by simp
    qed
    then obtain ws where ws: "proddecode C D (e' # es') (n - sz) (r div C e sz) = Inr ws"
      "args_of ty (e' # es') ws"
      using Cons by auto
    show ?thesis
      using pk v ws Cons by (intro exI [of _ "v # ws"]) (simp add: args_of_def)
  qed
qed

text \<open>In a typed store every index below the cardinality is decoded, into the set of
  the object.\<close>

lemma sindex_typed:
  assumes wf: "wf_store G" and ty: "typed ty G"
  shows "x < length G \<Longrightarrow> 0 \<le> n \<Longrightarrow> 0 \<le> i \<Longrightarrow> i < scard G x n \<Longrightarrow>
     \<exists>v. sindex G x n i = Inr v \<and> v \<in> ty x"
proof (induction "nat n * length G + x" arbitrary: x n i rule: less_induct)
  case less
  note x = less.prems(1) and n = less.prems(2) and i = less.prems(3,4)
  have tx: "typed_obj ty x (G ! x)" using ty x by (simp add: typed_def)
  have wx: "wf_obj (length G) x (G ! x)" using wf x by (simp add: wf_store_def)
  have ih: "\<exists>v. sindex G e m j = Inr v \<and> v \<in> ty e"
    if "lexlt m e n x" "0 \<le> m" "e < length G" "0 \<le> j" "j < scard G e m" for e m j
  proof -
    have "nat m * length G + e < nat n * length G + x"
      using that(1,2,3) x by (rule lex_measure)
    from less.hyps [OF this that(3,2,4,5)] show ?thesis .
  qed
  show ?case
  proof (cases "G ! x")
    case IntEnum
    then show ?thesis using x n tx by (simp add: sindex_IntEnum)
  next
    case (Nullary con)
    have "builds ty con [] (ty x)" using tx Nullary by simp
    moreover have "args_of ty [] []" by (simp add: args_of_def)
    ultimately obtain v where "con [] = Inr v" "v \<in> ty x" by (rule buildsD)
    then show ?thesis using x Nullary by (simp add: sindex_Nullary)
  next
    case (Unary con enums)
    then obtain e where en: "enums = [e]" and e: "e < x"
      using wx by (cases enums) auto
    have G: "G ! x = Unary con [e]" using Unary en by simp
    have "lexlt n e n x" using e by (simp add: lexlt_def)
    from ih [OF this n, of i] e x i scard_Unary [OF x G e, of n]
    obtain a where a: "sindex G e n i = Inr a" "a \<in> ty e" by auto
    have "builds ty con [e] (ty x)" using tx G by simp
    moreover have "args_of ty [e] [a]" using a by (simp add: args_of_def)
    ultimately obtain v where "con [a] = Inr v" "v \<in> ty x" by (rule buildsD)
    then show ?thesis using a sindex_Unary [OF x G e, of n i] by simp
  next
    case (Enum cons cards)
    have np: "0 < n" using i scard_Enum [OF x Enum, of n] by (cases "n \<le> 0") auto
    let ?B = "\<lambda>c. scard G c (n - 1)"
    have sm: "i < (\<Sum>c\<leftarrow>cons. ?B c)" using i np scard_Enum [OF x Enum, of n] by simp
    obtain c r where pk: "pick ?B cons i = Some (c, r)" and c: "c \<in> set cons"
      and r: "0 \<le> r" "r < ?B c"
      using pick_Some [of cons ?B i] scard_nonneg i(1) sm by metis
    have cl: "c < length G" using wx Enum c by simp
    have "lexlt (n - 1) c n x" by (simp add: lexlt_def)
    from ih [OF this _ cl r] np
    obtain v where v: "sindex G c (n - 1) r = Inr v" "v \<in> ty c" by auto
    have "ty c \<subseteq> ty x" using tx Enum c by simp
    then show ?thesis using v pk sindex_Enum [OF x Enum np, of i] by auto
  next
    case (Constructor con enums nxt cs)
    have wfx: "\<forall>e\<in>set enums. e < x" and ne: "enums \<noteq> []" using wx Constructor by simp_all
    have sc: "scard G x n = prodcard (scard G) enums n"
      using x Constructor wfx n by (rule scard_Constructor)
    have "\<exists>vs. proddecode (scard G) (sindex G) enums n i = Inr vs \<and> args_of ty enums vs"
      using scard_nonneg ne n
    proof (rule proddecode_typed)
      show "0 \<le> i" using i by simp
      show "i < prodcard (scard G) enums n" using i sc by simp
      show "\<exists>v. sindex G e m j = Inr v \<and> v \<in> ty e"
        if "e \<in> set enums" "0 \<le> m" "m \<le> n" "0 \<le> j" "j < scard G e m" for e m j
      proof -
        have e: "e < x" using wfx that(1) by simp
        have "lexlt m e n x" using that(3) e by (auto simp: lexlt_def)
        from ih [OF this that(2) _ that(4,5)] e x show ?thesis by simp
      qed
    qed
    then obtain vs where vs: "proddecode (scard G) (sindex G) enums n i = Inr vs"
      "args_of ty enums vs" by blast
    have "builds ty con enums (ty x)" using tx Constructor by simp
    then obtain v where "con vs = Inr v" "v \<in> ty x" using vs(2) by (rule buildsD)
    then show ?thesis using vs sindex_Constructor [OF x Constructor wfx n, of i] by simp
  qed
qed

text \<open>The decoding is injective, also from one size to another.\<close>

lemma sindex_inj:
  assumes wf: "wf_store G" and ty: "typed ty G"
  shows "x < length G \<Longrightarrow> 0 \<le> n \<Longrightarrow> 0 \<le> n' \<Longrightarrow> 0 \<le> i \<Longrightarrow> i < scard G x n \<Longrightarrow>
     0 \<le> j \<Longrightarrow> j < scard G x n' \<Longrightarrow> sindex G x n i = Inr v \<Longrightarrow> sindex G x n' j = Inr v \<Longrightarrow>
     n = n' \<and> i = j"
proof (induction "(nat n + nat n') * length G + x" arbitrary: x n n' i j v rule: less_induct)
  case less
  note x = less.prems(1) and n = less.prems(2,3) and i = less.prems(4,5) and j = less.prems(6,7)
    and vi = less.prems(8) and vj = less.prems(9)
  have tx: "typed_obj ty x (G ! x)" using ty x by (simp add: typed_def)
  have wx: "wf_obj (length G) x (G ! x)" using wf x by (simp add: wf_store_def)
  have mem: "a \<in> ty e"
    if "sindex G e m k = Inr a" "e < length G" "0 \<le> m" "0 \<le> k" "k < scard G e m" for e m k a
    using sindex_typed [OF wf ty that(2,3,4,5)] that(1) by auto
  show ?case
  proof (cases "G ! x")
    case IntEnum
    then show ?thesis using x i j vi vj by (auto simp: sindex_IntEnum scard_IntEnum)
  next
    case (Nullary con)
    then show ?thesis using x i j by (simp add: scard_Nullary split: if_splits)
  next
    case (Unary con enums)
    then obtain e where en: "enums = [e]" and e: "e < x"
      using wx by (cases enums) auto
    have G: "G ! x = Unary con [e]" using Unary en by simp
    have eG: "e < length G" using e x by simp
    have bl: "builds ty con [e] (ty x)" using tx G by simp
    have ie: "i < scard G e n" "j < scard G e n'" using i j scard_Unary [OF x G e] by simp_all
    from vi obtain a where a: "sindex G e n i = Inr a" "con [a] = Inr v"
      unfolding sindex_Unary [OF x G e] by (auto simp: bindE_Inr)
    from vj obtain b where b: "sindex G e n' j = Inr b" "con [b] = Inr v"
      unfolding sindex_Unary [OF x G e] by (auto simp: bindE_Inr)
    have "args_of ty [e] [a]" using mem [OF a(1) eG n(1) i(1) ie(1)] by (simp add: args_of_def)
    moreover have "args_of ty [e] [b]"
      using mem [OF b(1) eG n(2) j(1) ie(2)] by (simp add: args_of_def)
    ultimately have "[a] = [b]" using bl a(2) b(2) by (intro builds_inj [OF bl])
    then have ab: "b = a" by simp
    have "(nat n + nat n') * length G + e < (nat n + nat n') * length G + x" using e by simp
    from less.hyps [OF this eG n i(1) ie(1) j(1) ie(2) a(1) b(1) [unfolded ab]]
    show ?thesis .
  next
    case (Enum cons cards)
    have np: "0 < n" using i scard_Enum [OF x Enum, of n] by (cases "n \<le> 0") auto
    have np': "0 < n'" using j scard_Enum [OF x Enum, of n'] by (cases "n' \<le> 0") auto
    let ?B = "\<lambda>c. scard G c (n - 1)"
    let ?B' = "\<lambda>c. scard G c (n' - 1)"
    from vi obtain c r where pi: "pick ?B cons i = Some (c, r)" and ci: "sindex G c (n - 1) r = Inr v"
      unfolding sindex_Enum [OF x Enum np] by (auto split: option.splits)
    from vj obtain c' r' where pj: "pick ?B' cons j = Some (c', r')"
      and cj: "sindex G c' (n' - 1) r' = Inr v"
      unfolding sindex_Enum [OF x Enum np'] by (auto split: option.splits)
    from pick_range [OF pi i(1)] have c: "c \<in> set cons" and r: "0 \<le> r" "r < ?B c" by auto
    from pick_range [OF pj j(1)] have c': "c' \<in> set cons" and r': "0 \<le> r'" "r' < ?B' c'" by auto
    have cl: "c < length G" "c' < length G" using wx Enum c c' by simp_all
    have "v \<in> ty c" using ci cl(1) _ r by (rule mem) (use np in simp)
    moreover have "v \<in> ty c'" using cj cl(2) _ r' by (rule mem) (use np' in simp)
    ultimately have "v \<in> ty c \<inter> ty c'" by simp
    moreover have "c \<noteq> c' \<Longrightarrow> ty c \<inter> ty c' = {}" using tx Enum c c' by simp
    ultimately have cc: "c' = c" by blast
    have "(nat (n - 1) + nat (n' - 1)) * length G + c < (nat n + nat n') * length G + x"
      using np np' cl x by (intro sum_measure) auto
    from less.hyps [OF this cl(1) _ _ r r'(1) r'(2) [unfolded cc] ci cj [unfolded cc]] np np'
    have nn: "n' = n" and rr: "r' = r" by simp_all
    have "distinct cons" using tx Enum by simp
    then have "i = j" using pi pj [unfolded nn rr cc] by (rule pick_inj)
    then show ?thesis using nn by simp
  next
    case (Constructor con enums nxt cs)
    have wfx: "\<forall>e\<in>set enums. e < x" and ne: "enums \<noteq> []" using wx Constructor by simp_all
    have bl: "builds ty con enums (ty x)" using tx Constructor by simp
    have sc: "scard G x m = prodcard (scard G) enums m" if "0 \<le> m" for m
      using x Constructor wfx that by (rule scard_Constructor)
    from vi obtain vs where a: "proddecode (scard G) (sindex G) enums n i = Inr vs" "con vs = Inr v"
      unfolding sindex_Constructor [OF x Constructor wfx n(1)] by (auto simp: bindE_Inr)
    from vj obtain ws where b: "proddecode (scard G) (sindex G) enums n' j = Inr ws" "con ws = Inr v"
      unfolding sindex_Constructor [OF x Constructor wfx n(2)] by (auto simp: bindE_Inr)
    have tyd: "\<exists>vs. proddecode (scard G) (sindex G) enums m k = Inr vs \<and> args_of ty enums vs"
      if "0 \<le> m" "0 \<le> k" "k < prodcard (scard G) enums m" for m k
      using scard_nonneg ne that(1) _ that(2,3)
    proof (rule proddecode_typed)
      show "\<exists>v. sindex G e m' j' = Inr v \<and> v \<in> ty e"
        if "e \<in> set enums" "0 \<le> m'" "m' \<le> m" "0 \<le> j'" "j' < scard G e m'" for e m' j'
      proof -
        have "e < length G" using wfx that(1) x by auto
        from sindex_typed [OF wf ty this that(2,4,5)] show ?thesis .
      qed
    qed
    have "args_of ty enums vs" using tyd [OF n(1) i(1)] i(2) sc [OF n(1)] a(1) by auto
    moreover have "args_of ty enums ws" using tyd [OF n(2) j(1)] j(2) sc [OF n(2)] b(1) by auto
    ultimately have ab: "vs = ws" using a(2) b(2) by (intro builds_inj [OF bl])
    show ?thesis
      using scard_nonneg n
    proof (rule proddecode_inj [where C = "scard G" and D = "sindex G" and es = enums and vs = vs])
      show "0 \<le> i" "0 \<le> j" using i j by simp_all
      show "i < prodcard (scard G) enums n" using i sc n by simp
      show "j < prodcard (scard G) enums n'" using j sc n by simp
      show "proddecode (scard G) (sindex G) enums n i = Inr vs" using a by simp
      show "proddecode (scard G) (sindex G) enums n' j = Inr vs" using b ab by simp
      show "m = m' \<and> a = b"
        if "e \<in> set enums" "0 \<le> m" "m \<le> n" "0 \<le> m'" "m' \<le> n'"
          "0 \<le> a" "a < scard G e m" "0 \<le> b" "b < scard G e m'"
          "sindex G e m a = Inr w" "sindex G e m' b = Inr w"
        for e m m' a b w
      proof -
        have e: "e < x" using wfx that(1) by simp
        have "(nat m + nat m') * length G + e < (nat n + nat n') * length G + x"
          using that(2-5) e x by (intro sum_measure) auto
        from less.hyps [OF this _ that(2) that(4) that(6,7,8,9,10,11)] e x
        show ?thesis by simp
      qed
    qed
  qed
qed

lemma json_arrays_eq:
  "json_arrays = (0, [Enum [1, 2] [0], IntEnum, Enum [3, 4] [0], Nullary nil,
                      Constructor app [0, 2] 0 [[], []]])"
  by (simp add: json_arrays_def elist_def alloc_def Enum_init_def addcon_def Constructor_init_def)

lemma json_arrays_consistent: "consistent (snd json_arrays)"
  by (rule fresh_consistent) (simp_all add: json_arrays_eq wf_store_def less_Suc_eq numeral_eq_Suc)

lemma builds_nil: "VList [] \<in> T \<Longrightarrow> builds ty nil [] T"
  by (simp add: builds_def args_of_def)

lemma builds_app:
  assumes "ty l \<subseteq> range VList" "\<And>xs. xs \<noteq> [] \<Longrightarrow> VList xs \<in> T"
  shows "builds ty app [e, l] T"
  unfolding builds_def args_of_def
proof (intro conjI allI impI)
  fix as assume "list_all2 (\<lambda>e a. a \<in> ty e) [e, l] as"
  then obtain a xs where "as = [a, VList xs]" using assms(1) by (auto simp: list_all2_Cons1)
  then show "\<exists>v. app as = Inr v \<and> v \<in> T" using assms(2) by simp
next
  fix as bs
  assume h: "list_all2 (\<lambda>e a. a \<in> ty e) [e, l] as \<and> list_all2 (\<lambda>e a. a \<in> ty e) [e, l] bs \<and>
    app as = app bs"
  then obtain a xs where as: "as = [a, VList xs]" using assms(1) by (auto simp: list_all2_Cons1)
  from h obtain b ys where bs: "bs = [b, VList ys]" using assms(1) by (auto simp: list_all2_Cons1)
  show "as = bs" using h as bs by simp
qed

lemma json_arrays_typed: "typed json_ty (snd json_arrays)"
proof -
  have "typed_obj json_ty 0 (Enum [1, 2] [0])" by (auto simp: json_ty_def)
  moreover have "typed_obj json_ty 1 IntEnum" by (simp add: json_ty_def)
  moreover have "typed_obj json_ty 2 (Enum [3, 4] [0])" by (auto simp: json_ty_def)
  moreover have "typed_obj json_ty 3 (Nullary nil)" by (simp add: json_ty_def builds_nil)
  moreover have "typed_obj json_ty 4 (Constructor app [0, 2] 0 [[], []])"
    unfolding typed_obj.simps by (rule builds_app) (simp_all add: json_ty_def)
  ultimately show ?thesis
    by (simp add: typed_def json_arrays_eq less_Suc_eq numeral_eq_Suc)
qed

text \<open>
  C1, as stated: \<open>index(n, \<cdot>)\<close> is injective on \<open>[0, card(n))\<close> for every enumerator built
  from \<open>Enum\<close>, \<open>Constructor\<close> and \<open>IntEnum\<close>. An \<open>Enum\<close> with the constructor of
  the empty list added twice has \<open>card(2) = 2\<close>, and \<open>index(2, 0)\<close> and \<open>index(2, 1)\<close>
  are both the empty list.
\<close>

theorem index_not_injective_counterexample:
  "outcome (call_card 5 [Enum [1, 2] [0], Constructor_init nil [], Constructor_init nil []] 0 2)
     = Some (Inr 2) \<and>
   outcome (call_index 5 [Enum [1, 2] [0], Constructor_init nil [], Constructor_init nil []] 0 2 0)
     = Some (Inr (VList [])) \<and>
   outcome (call_index 5 [Enum [1, 2] [0], Constructor_init nil [], Constructor_init nil []] 0 2 1)
     = Some (Inr (VList []))"
  by code_simp

text \<open>
  C1, amended: in a consistent store with a typing \<open>ty\<close> (the alternatives of every
  \<open>Enum\<close> are distinct objects, constructors or not, whose sets of values do not meet; the
  function of every constructor returns, and is injective, on the values of its components),
  for every object and every \<open>n \<ge> 0\<close>: \<open>index(n, i)\<close> returns a value for every
  \<open>0 \<le> i < card(n)\<close>, a value of the set of the object, and the \<open>card(n)\<close> values
  \<open>index(n, 0)\<close>, ..., \<open>index(n, card(n) - 1)\<close> are pairwise distinct. The values of size
  \<open>n\<close> being the values that \<open>index(n, \<cdot>)\<close> returns, each is then returned for exactly
  one index.
\<close>

theorem index_injective:
  assumes "consistent s" "typed ty s" "x < length s" "0 \<le> n"
  shows "\<exists>F. \<forall>f\<ge>F. \<exists>c s'. call_card f s x n = ret c s' \<and>
      (\<forall>i. 0 \<le> i \<and> i < c \<longrightarrow>
         (\<exists>v. outcome (call_index f s x n i) = Some (Inr v) \<and> v \<in> ty x)) \<and>
      (\<forall>i j. 0 \<le> i \<and> i < c \<and> 0 \<le> j \<and> j < c \<and>
         outcome (call_index f s x n i) = outcome (call_index f s x n j) \<longrightarrow> i = j)"
proof -
  have wf: "wf_store s" using assms(1) by (simp add: consistent_def)
  from call_card_total [OF wf assms(3,4)] obtain F1 where F1: "\<forall>f\<ge>F1. cok s f n x" by blast
  from call_index_total [OF wf assms(3,4)] obtain F2 where F2: "\<forall>f\<ge>F2. iok s f n x" by blast
  show ?thesis
  proof (rule exI [of _ "max F1 F2"], intro allI impI)
    fix f assume f: "max F1 F2 \<le> f"
    have r: "reach s s" using assms(1) by (rule consistent_reach)
    have "cok s f n x" using F1 f by simp
    from cokD [OF this r]
    obtain s' where 1: "call_card f s x n = ret (scard s x n) s'" by blast
    have io: "iok s f n x" using F2 f by simp
    have 2: "outcome (call_index f s x n i) = Some (sindex s x n i)"
      if "0 \<le> i" "i < scard s x n" for i
    proof -
      have "iresult s (call_index f s x n i) s (sindex s x n i)"
        using io r that unfolding iok_def by blast
      then show ?thesis by (rule iresult_outcome)
    qed
    have 3: "\<exists>v. outcome (call_index f s x n i) = Some (Inr v) \<and> v \<in> ty x"
      if "0 \<le> i" "i < scard s x n" for i
      using sindex_typed [OF wf assms(2,3,4) that] 2 [OF that] by auto
    have 4: "i = j"
      if "0 \<le> i" "i < scard s x n" "0 \<le> j" "j < scard s x n"
        "outcome (call_index f s x n i) = outcome (call_index f s x n j)" for i j
    proof -
      from 3 [OF that(1,2)] obtain v where v: "outcome (call_index f s x n i) = Some (Inr v)"
        by blast
      have "sindex s x n i = Inr v" using v 2 [OF that(1,2)] by simp
      moreover have "sindex s x n j = Inr v" using v that(5) 2 [OF that(3,4)] by simp
      ultimately show ?thesis
        using sindex_inj [OF wf assms(2,3,4,4) that(1,2,3,4)] by simp
    qed
    show "\<exists>c s'. call_card f s x n = ret c s' \<and>
      (\<forall>i. 0 \<le> i \<and> i < c \<longrightarrow>
         (\<exists>v. outcome (call_index f s x n i) = Some (Inr v) \<and> v \<in> ty x)) \<and>
      (\<forall>i j. 0 \<le> i \<and> i < c \<and> 0 \<le> j \<and> j < c \<and>
         outcome (call_index f s x n i) = outcome (call_index f s x n j) \<longrightarrow> i = j)"
      using 1 3 4 by (intro exI [of _ "scard s x n"] exI [of _ s']) blast
  qed
qed

theorem index_injective_witness:
  "\<exists>F. \<forall>f\<ge>F. \<exists>c s'. call_card f (snd json_arrays) (fst json_arrays) 7 = ret c s' \<and>
      (\<forall>i. 0 \<le> i \<and> i < c \<longrightarrow>
         (\<exists>v. outcome (call_index f (snd json_arrays) (fst json_arrays) 7 i) = Some (Inr v) \<and>
              v \<in> json_ty (fst json_arrays))) \<and>
      (\<forall>i j. 0 \<le> i \<and> i < c \<and> 0 \<le> j \<and> j < c \<and>
         outcome (call_index f (snd json_arrays) (fst json_arrays) 7 i) =
         outcome (call_index f (snd json_arrays) (fst json_arrays) 7 j) \<longrightarrow> i = j)"
  using index_injective [OF json_arrays_consistent json_arrays_typed, of "fst json_arrays" 7]
  by (simp add: json_arrays_eq)

end
